theory Spec2Isabelle
  imports Complex_Main "HOL-Library.Log_Nat"
begin

section \<open>Python values used by \<open>main.py\<close>\<close>

text \<open>
  Exceptions are values: every \<open>raise\<close> of the interpreter that the script can reach is a
  constructor, and a function that may raise returns \<open>pyerror + 'a\<close> with \<open>Inl\<close> the
  exception. The script has no \<open>try\<close>, so an \<open>Inl\<close> always propagates to the top level.
\<close>

datatype pyerror = AttributeError | ValueError | ZeroDivisionError | WebDriverException | OSError

text \<open>
  A Python \<open>float\<close> is an IEEE-754 binary64 value: a finite number (a rational), an
  infinity or a NaN. The two zeros are identified (they differ only in the printed sign).
\<close>

datatype pyfloat = Finite rat | PInf | NInf | NaN

subsection \<open>Rounding to binary64\<close>

definition pow2 :: "int \<Rightarrow> rat" where
  "pow2 e = (if 0 \<le> e then 2 ^ nat e else 1 / 2 ^ nat (- e))"

text \<open>\<open>ilog2 x\<close> is the integer \<open>e\<close> with \<open>2^e \<le> x < 2^(e+1)\<close>, for \<open>x > 0\<close>.\<close>

definition ilog2 :: "rat \<Rightarrow> int" where
  "ilog2 x = (let (a, b) = quotient_of x; d = bitlen a - bitlen b
              in if pow2 d \<le> x then d else d - 1)"

definition round_half_even :: "rat \<Rightarrow> int" where
  "round_half_even x =
     (let f = \<lfloor>x\<rfloor>; d = x - of_int f
      in if d < 1 / 2 then f else if 1 / 2 < d then f + 1
         else if even f then f else f + 1)"

text \<open>
  Round to nearest, ties to even, with a 53-bit significand, gradual underflow below
  \<open>2^-1022\<close> and overflow to an infinity: what the hardware does for \<open>+\<close>, \<open>*\<close>, \<open>/\<close>
  and what \<open>float(str)\<close> does (CPython's conversion is correctly rounded). With \<open>e\<close> the
  binary exponent of \<open>\<bar>x\<bar>\<close> the significand \<open>m\<close> is at most \<open>2^53\<close>, so the rounded value
  \<open>m * 2^(e - 52)\<close> reaches \<open>2^1024\<close> exactly when \<open>e \<ge> 1024\<close>, or \<open>e = 1023\<close> and \<open>m = 2^53\<close>.
\<close>

definition round_double :: "rat \<Rightarrow> pyfloat" where
  "round_double x =
     (if x = 0 then Finite 0
      else let a = \<bar>x\<bar>;
               e = max (ilog2 a) (- 1022);
               u = pow2 (e - 52);
               m = round_half_even (a / u);
               r = of_int m * u
           in if 1024 \<le> e \<or> (e = 1023 \<and> 2 ^ 53 \<le> m) then (if x < 0 then NInf else PInf)
              else Finite (if x < 0 then - r else r))"

text \<open>
  The arithmetic takes the rounding as a parameter \<open>rnd\<close>; the interpreter computes with
  \<open>round_double\<close>.
\<close>

fun fadd :: "(rat \<Rightarrow> pyfloat) \<Rightarrow> pyfloat \<Rightarrow> pyfloat \<Rightarrow> pyfloat" where
  "fadd rnd (Finite a) (Finite b) = rnd (a + b)"
| "fadd rnd NaN _ = NaN"
| "fadd rnd _ NaN = NaN"
| "fadd rnd PInf NInf = NaN"
| "fadd rnd NInf PInf = NaN"
| "fadd rnd PInf _ = PInf"
| "fadd rnd NInf _ = NInf"
| "fadd rnd _ PInf = PInf"
| "fadd rnd _ NInf = NInf"

fun fmul :: "(rat \<Rightarrow> pyfloat) \<Rightarrow> pyfloat \<Rightarrow> pyfloat \<Rightarrow> pyfloat" where
  "fmul rnd (Finite a) (Finite b) = rnd (a * b)"
| "fmul rnd NaN _ = NaN"
| "fmul rnd _ NaN = NaN"
| "fmul rnd PInf PInf = PInf"
| "fmul rnd PInf NInf = NInf"
| "fmul rnd NInf PInf = NInf"
| "fmul rnd NInf NInf = PInf"
| "fmul rnd PInf (Finite b) = (if b = 0 then NaN else if 0 < b then PInf else NInf)"
| "fmul rnd NInf (Finite b) = (if b = 0 then NaN else if 0 < b then NInf else PInf)"
| "fmul rnd (Finite a) PInf = (if a = 0 then NaN else if 0 < a then PInf else NInf)"
| "fmul rnd (Finite a) NInf = (if a = 0 then NaN else if 0 < a then NInf else PInf)"

text \<open>
  \<open>a / b\<close> on floats raises \<open>ZeroDivisionError\<close> whenever the divisor is a zero, whatever
  the dividend (also for a NaN or an infinity).
\<close>

fun fdiv :: "(rat \<Rightarrow> pyfloat) \<Rightarrow> pyfloat \<Rightarrow> pyfloat \<Rightarrow> pyerror + pyfloat" where
  "fdiv rnd a (Finite b) =
     (if b = 0 then Inl ZeroDivisionError
      else Inr (case a of
                  Finite x \<Rightarrow> rnd (x / b)
                | PInf \<Rightarrow> (if 0 < b then PInf else NInf)
                | NInf \<Rightarrow> (if 0 < b then NInf else PInf)
                | NaN \<Rightarrow> NaN))"
| "fdiv rnd NaN _ = Inr NaN"
| "fdiv rnd _ NaN = Inr NaN"
| "fdiv rnd (Finite a) _ = Inr (Finite 0)"
| "fdiv rnd _ _ = Inr NaN"

section \<open>Strings\<close>

text \<open>
  A Python \<open>str\<close> is modelled as a \<open>string\<close> whose characters are the code points 0 to 255.
  \<open>isspace\<close> is the whitespace of \<open>str.strip()\<close> in that range.
\<close>

definition isspace :: "char \<Rightarrow> bool" where
  "isspace c \<longleftrightarrow> c \<in> set [CHR 0x09, CHR 0x0A, CHR 0x0B, CHR 0x0C, CHR 0x0D, CHR 0x1C,
                            CHR 0x1D, CHR 0x1E, CHR 0x1F, CHR 0x20, CHR 0x85, CHR 0xA0]"

definition strip :: "string \<Rightarrow> string" where
  "strip s = rev (dropWhile isspace (rev (dropWhile isspace s)))"

text \<open>\<open>s.replace(c, '')\<close> for a single character \<open>c\<close>: every occurrence is deleted.\<close>

definition replace_by_empty :: "char \<Rightarrow> string \<Rightarrow> string" where
  "replace_by_empty c s = filter (\<lambda>x. x \<noteq> c) s"

definition isdigit :: "char \<Rightarrow> bool" where
  "isdigit c \<longleftrightarrow> c \<in> set ''0123456789''"

definition digit_val :: "char \<Rightarrow> int" where
  "digit_val c = of_char c - 48"

definition digits_val :: "string \<Rightarrow> int" where
  "digits_val ds = foldl (\<lambda>a c. 10 * a + digit_val c) 0 ds"

section \<open>The builtin \<open>float(str)\<close>\<close>

text \<open>
  \<open>float\<close> strips whitespace at both ends. Its whitespace differs from that of \<open>strip\<close>: the
  separators \<open>0x1C\<close> to \<open>0x1F\<close> are not skipped.
\<close>

definition float_isspace :: "char \<Rightarrow> bool" where
  "float_isspace c \<longleftrightarrow> c \<in> set [CHR 0x09, CHR 0x0A, CHR 0x0B, CHR 0x0C, CHR 0x0D, CHR 0x20,
                                  CHR 0x85, CHR 0xA0]"

definition float_strip :: "string \<Rightarrow> string" where
  "float_strip s = rev (dropWhile float_isspace (rev (dropWhile float_isspace s)))"

text \<open>
  Underscores are accepted between two digits only, and dropped. \<open>prev\<close> is the character
  before the current one (\<open>NUL\<close> at the start).
\<close>

fun drop_underscores :: "char \<Rightarrow> string \<Rightarrow> string option" where
  "drop_underscores prev [] = (if prev = CHR ''_'' then None else Some [])"
| "drop_underscores prev (c # cs) =
     (if c = CHR ''_'' then (if isdigit prev then drop_underscores c cs else None)
      else if prev = CHR ''_'' \<and> \<not> isdigit c then None
      else map_option ((#) c) (drop_underscores c cs))"

definition split_sign :: "string \<Rightarrow> bool \<times> string" where
  "split_sign s =
     (case s of
        [] \<Rightarrow> (False, [])
      | c # cs \<Rightarrow> if c = CHR ''-'' then (True, cs) else if c = CHR ''+'' then (False, cs)
                  else (False, s))"

definition pow10 :: "int \<Rightarrow> rat" where
  "pow10 e = (if 0 \<le> e then 10 ^ nat e else 1 / 10 ^ nat (- e))"

text \<open>
  A decimal literal: digits, an optional point with digits, at least one digit in all, and
  an optional exponent \<open>e\<close> or \<open>E\<close> with an optional sign and at least one digit. The whole
  string must be consumed. The value is the exact rational the literal denotes.
\<close>

definition parse_decimal :: "string \<Rightarrow> rat option" where
  "parse_decimal s =
     (let ip = takeWhile isdigit s;
          r1 = dropWhile isdigit s;
          (fp, r2) = (case r1 of
                        [] \<Rightarrow> ([], [])
                      | c # cs \<Rightarrow> if c = CHR ''.'' then (takeWhile isdigit cs, dropWhile isdigit cs)
                                  else ([], r1))
      in if ip = [] \<and> fp = [] then None
         else let m = rat_of_int (digits_val (ip @ fp)); k = int (length fp)
              in case r2 of
                   [] \<Rightarrow> Some (m * pow10 (- k))
                 | c # cs \<Rightarrow>
                     if c = CHR ''e'' \<or> c = CHR ''E'' then
                       (let (neg, ds) = split_sign cs; x = digits_val ds
                        in if ds \<noteq> [] \<and> list_all isdigit ds
                           then Some (m * pow10 ((if neg then - x else x) - k))
                           else None)
                     else None)"

definition lower :: "char \<Rightarrow> char" where
  "lower c = (if c \<in> set ''ABCDEFGHIJKLMNOPQRSTUVWXYZ'' then char_of (of_char c + (32::nat)) else c)"

definition float_of_str :: "(rat \<Rightarrow> pyfloat) \<Rightarrow> string \<Rightarrow> pyerror + pyfloat" where
  "float_of_str rnd s =
     (case drop_underscores (CHR 0x00) (float_strip s) of
        None \<Rightarrow> Inl ValueError
      | Some t \<Rightarrow>
          (case split_sign t of
             (neg, r) \<Rightarrow>
               if map lower r = ''inf'' \<or> map lower r = ''infinity''
               then Inr (if neg then NInf else PInf)
               else if map lower r = ''nan'' then Inr NaN
               else (case parse_decimal r of
                       None \<Rightarrow> Inl ValueError
                     | Some q \<Rightarrow> Inr (rnd (if neg then - q else q)))))"

section \<open>The parsed document\<close>

text \<open>
  \<open>BeautifulSoup(html_text, 'html.parser')\<close> returns a tree. A tag carries its name, the
  list of its classes (the \<open>class\<close> attribute split at whitespace, empty when the attribute
  is absent) and its children; the selectors of the script read nothing else. The parser
  itself is a parameter of the model.
\<close>

datatype element = Tag string "string list" "element list" | NavigableString string

fun text_of :: "element \<Rightarrow> string" where
  "text_of (NavigableString s) = s"
| "text_of (Tag n cs kids) = concat (map text_of kids)"

text \<open>All nodes below an element, in document order.\<close>

fun descendants :: "element \<Rightarrow> element list" where
  "descendants (NavigableString s) = []"
| "descendants (Tag n cs kids) = concat (map (\<lambda>k. k # descendants k) kids)"

fun is_tag :: "string \<Rightarrow> element \<Rightarrow> bool" where
  "is_tag nm (Tag n cs kids) = (n = nm)"
| "is_tag nm (NavigableString s) = False"

fun join_space :: "string list \<Rightarrow> string" where
  "join_space [] = []"
| "join_space [c] = c"
| "join_space (c # cs) = c @ '' '' @ join_space cs"

text \<open>
  A \<open>class\<close> filter matches when one of the classes is the given string, or when the classes
  joined by single spaces are the given string.
\<close>

fun has_class :: "string \<Rightarrow> element \<Rightarrow> bool" where
  "has_class v (Tag n cs kids) = (v \<in> set cs \<or> join_space cs = v)"
| "has_class v (NavigableString s) = False"

definition find :: "string \<Rightarrow> element \<Rightarrow> element option" where
  "find nm node = (case filter (is_tag nm) (descendants node) of [] \<Rightarrow> None | e # _ \<Rightarrow> Some e)"

definition find_all :: "string \<Rightarrow> string \<Rightarrow> element \<Rightarrow> element list" where
  "find_all nm cls node = filter (\<lambda>e. is_tag nm e \<and> has_class cls e) (descendants node)"

section \<open>\<open>get_content\<close>\<close>

type_synonym coin_info = "string \<times> pyfloat \<times> pyfloat"

text \<open>\<open>cap_tag.text.strip().replace('$', '').replace(',', '')\<close>\<close>

definition clean_cap :: "string \<Rightarrow> string" where
  "clean_cap s = replace_by_empty (CHR '','') (replace_by_empty (CHR ''$'') (strip s))"

definition cap_str :: "element \<Rightarrow> string" where
  "cap_str cap_tag = clean_cap (text_of cap_tag)"

text \<open>The two selectors of lines 55 and 56.\<close>

definition coin_name_tags :: "element \<Rightarrow> element list" where
  "coin_name_tags table = find_all ''p'' ''sc-4984dd93-0 kKpPOn'' table"

definition capitalization_tags :: "element \<Rightarrow> element list" where
  "capitalization_tags table = find_all ''span'' ''sc-7bc56c81-1 bCdPBp'' table"

text \<open>The first loop (lines 61 to 63): \<open>total_market_cap += float(cap_str)\<close>.\<close>

fun sum_caps :: "(rat \<Rightarrow> pyfloat) \<Rightarrow> element list \<Rightarrow> pyfloat \<Rightarrow> pyerror + pyfloat" where
  "sum_caps rnd [] total_market_cap = Inr total_market_cap"
| "sum_caps rnd (cap_tag # rest) total_market_cap =
     (case float_of_str rnd (cap_str cap_tag) of
        Inl e \<Rightarrow> Inl e
      | Inr v \<Rightarrow> sum_caps rnd rest (fadd rnd total_market_cap v))"

text \<open>The second loop (lines 65 to 69), over the pairs of \<open>zip\<close>.\<close>

fun build_info ::
  "(rat \<Rightarrow> pyfloat) \<Rightarrow> pyfloat \<Rightarrow> (element \<times> element) list \<Rightarrow> coin_info list \<Rightarrow> pyerror + coin_info list"
where
  "build_info rnd total_market_cap [] coins_info = Inr coins_info"
| "build_info rnd total_market_cap ((name_tag, cap_tag) # rest) coins_info =
     (case float_of_str rnd (cap_str cap_tag) of
        Inl e \<Rightarrow> Inl e
      | Inr coin_cap \<Rightarrow>
          (case fdiv rnd coin_cap total_market_cap of
             Inl e \<Rightarrow> Inl e
           | Inr q \<Rightarrow>
               build_info rnd total_market_cap rest
                 (coins_info @ [(strip (text_of name_tag), coin_cap, fmul rnd q (Finite 100))])))"

text \<open>
  \<open>soup.find('tbody')\<close> is \<open>None\<close> when there is no such tag, and \<open>None.find_all\<close> raises
  \<open>AttributeError\<close>. \<open>total_market_cap\<close> starts as the integer \<open>0\<close>, which a float addition
  converts to \<open>0.0\<close>.
\<close>

definition get_content ::
  "(rat \<Rightarrow> pyfloat) \<Rightarrow> (string \<Rightarrow> element) \<Rightarrow> string \<Rightarrow> pyerror + coin_info list"
where
  "get_content rnd parser html_text =
     (let soup = parser html_text
      in case find ''tbody'' soup of
           None \<Rightarrow> Inl AttributeError
         | Some table \<Rightarrow>
             (case sum_caps rnd (capitalization_tags table) (Finite 0) of
                Inl e \<Rightarrow> Inl e
              | Inr total_market_cap \<Rightarrow>
                  build_info rnd total_market_cap
                    (zip (coin_name_tags table) (capitalization_tags table)) []))"

section \<open>\<open>write_cmc_top\<close>\<close>

text \<open>
  The fields of \<open>datetime.datetime.now()\<close> that the format string reads. \<open>%H\<close>, \<open>%M\<close>,
  \<open>%d\<close> and \<open>%m\<close> print two digits, zero-padded; \<open>%Y\<close> prints the year, four digits for
  the years 1000 to 9999.
\<close>

record datetime =
  year :: nat
  month :: nat
  day :: nat
  hour :: nat
  minute :: nat

definition digit_char :: "nat \<Rightarrow> char" where
  "digit_char n = ''0123456789'' ! (n mod 10)"

definition two_digits :: "nat \<Rightarrow> string" where
  "two_digits n = [digit_char (n div 10), digit_char n]"

definition four_digits :: "nat \<Rightarrow> string" where
  "four_digits n = [digit_char (n div 1000), digit_char (n div 100), digit_char (n div 10), digit_char n]"

definition directive :: "char \<Rightarrow> datetime \<Rightarrow> string" where
  "directive d dt =
     (if d = CHR ''H'' then two_digits (hour dt)
      else if d = CHR ''M'' then two_digits (minute dt)
      else if d = CHR ''d'' then two_digits (day dt)
      else if d = CHR ''m'' then two_digits (month dt)
      else if d = CHR ''Y'' then four_digits (year dt)
      else [CHR ''%'', d])"

fun strftime :: "string \<Rightarrow> datetime \<Rightarrow> string" where
  "strftime [] dt = []"
| "strftime [c] dt = [c]"
| "strftime (c # d # cs) dt =
     (if c = CHR ''%'' then directive d dt @ strftime cs dt else c # strftime (d # cs) dt)"

text \<open>
  \<open>csv.writer(file, delimiter=';')\<close> with the default dialect: a field that contains the
  delimiter, the quote character or a character of the line terminator is put in double
  quotes, with its quote characters doubled; a row ends in \<open>CR LF\<close>.
\<close>

definition csv_field :: "string \<Rightarrow> string" where
  "csv_field f =
     (if \<exists>c \<in> set f. c \<in> set [CHR '';'', CHR 0x22, CHR 0x0D, CHR 0x0A]
      then [CHR 0x22] @ concat (map (\<lambda>c. if c = CHR 0x22 then [c, c] else [c]) f) @ [CHR 0x22]
      else f)"

fun join_fields :: "string list \<Rightarrow> string" where
  "join_fields [] = []"
| "join_fields [f] = f"
| "join_fields (f # fs) = f @ '';'' @ join_fields fs"

definition writerow :: "string list \<Rightarrow> string" where
  "writerow row = join_fields (map csv_field row) @ [CHR 0x0D, CHR 0x0A]"

text \<open>
  The world the script runs in: what the browser session of \<open>get_html\<close> yields (the markup
  captured after the ten scrolls, or the exception it raises), the local time that
  \<open>datetime.now()\<close> reads at line 82, the files (each a list of the rows written to it) and
  the names that cannot be opened for writing.
\<close>

record world =
  page_source :: "pyerror + string"
  clock :: datetime
  files :: "string \<Rightarrow> string list option"
  unwritable :: "string set"

definition get_html :: "world \<Rightarrow> pyerror + string" where
  "get_html w = page_source w"

definition filename :: "datetime \<Rightarrow> string" where
  "filename now = ''Top100 '' @ strftime ''%H.%M %d.%m.%Y'' now @ ''.csv''"

text \<open>
  The loop of lines 88 and 89. A row is \<open>writer.writerow(coin_info)\<close>: the name as it is,
  the two floats through \<open>str\<close>, which is the parameter \<open>float_str\<close>.
\<close>

fun write_rows :: "(pyfloat \<Rightarrow> string) \<Rightarrow> coin_info list \<Rightarrow> string list \<Rightarrow> string list" where
  "write_rows float_str [] file = file"
| "write_rows float_str ((coin_name, coin_cap, market_percentage) # rest) file =
     write_rows float_str rest
       (file @ [writerow [coin_name, float_str coin_cap, float_str market_percentage]])"

text \<open>
  The result is the exception that ends the run, if any, and the world after the run.
  \<open>open(filename, mode='w')\<close> creates or truncates the file.
\<close>

definition write_cmc_top ::
  "(rat \<Rightarrow> pyfloat) \<Rightarrow> (string \<Rightarrow> element) \<Rightarrow> (pyfloat \<Rightarrow> string) \<Rightarrow> world \<Rightarrow> pyerror option \<times> world"
where
  "write_cmc_top rnd parser float_str w =
     (case get_html w of
        Inl e \<Rightarrow> (Some e, w)
      | Inr html_text \<Rightarrow>
          (case get_content rnd parser html_text of
             Inl e \<Rightarrow> (Some e, w)
           | Inr coins_info \<Rightarrow>
               if filename (clock w) \<in> unwritable w then (Some OSError, w)
               else (None, w\<lparr>files := (files w)(filename (clock w) \<mapsto>
                              write_rows float_str coins_info [writerow [''Name'', ''MC'', ''MP'']])\<rparr>)))"

section \<open>Auxiliary notions for the statements\<close>

text \<open>
  The sum of the market-percentage fields of a record list: the fields are added to \<open>0\<close>
  one after the other, in list order, each addition a float addition.
\<close>

definition sum_percentages :: "(rat \<Rightarrow> pyfloat) \<Rightarrow> coin_info list \<Rightarrow> pyfloat" where
  "sum_percentages rnd coins_info = foldl (fadd rnd) (Finite 0) (map (snd \<circ> snd) coins_info)"

text \<open>The unit roundoff of binary64: half the distance from 1 to the next float.\<close>

definition unit_roundoff :: rat where
  "unit_roundoff = 1 / 2 ^ 53"

text \<open>
  The pattern \<open>Top100 <HH.MM DD.MM.YYYY>.csv\<close> for a timestamp: the fixed characters are in
  their places and the five digit groups read back as hour, minute, day, month and year.
\<close>

definition filename_pattern :: "string \<Rightarrow> datetime \<Rightarrow> bool" where
  "filename_pattern fn now \<longleftrightarrow>
     length fn = 27 \<and> take 7 fn = ''Top100 '' \<and> drop 23 fn = ''.csv'' \<and>
     fn ! 9 = CHR ''.'' \<and> fn ! 12 = CHR '' '' \<and> fn ! 15 = CHR ''.'' \<and> fn ! 18 = CHR ''.'' \<and>
     list_all isdigit (take 2 (drop 7 fn)) \<and> digits_val (take 2 (drop 7 fn)) = int (hour now) \<and>
     list_all isdigit (take 2 (drop 10 fn)) \<and> digits_val (take 2 (drop 10 fn)) = int (minute now) \<and>
     list_all isdigit (take 2 (drop 13 fn)) \<and> digits_val (take 2 (drop 13 fn)) = int (day now) \<and>
     list_all isdigit (take 2 (drop 16 fn)) \<and> digits_val (take 2 (drop 16 fn)) = int (month now) \<and>
     list_all isdigit (take 4 (drop 19 fn)) \<and> digits_val (take 4 (drop 19 fn)) = int (year now)"

text \<open>
  \<open>coin_record rnd tot (name_tag, cap_tag) r\<close>: \<open>r\<close> is the tuple that one pass of the second
  loop appends for the pair, with \<open>tot\<close> the value of \<open>total_market_cap\<close>.
\<close>

definition coin_record :: "(rat \<Rightarrow> pyfloat) \<Rightarrow> pyfloat \<Rightarrow> element \<times> element \<Rightarrow> coin_info \<Rightarrow> bool" where
  "coin_record rnd tot p r \<longleftrightarrow>
     (\<exists>v q. float_of_str rnd (cap_str (snd p)) = Inr v \<and> fdiv rnd v tot = Inr q \<and>
            r = (strip (text_of (fst p)), v, fmul rnd q (Finite 100)))"

section \<open>Example documents\<close>

text \<open>
  Markup fragments, each with the tree that \<open>html.parser\<close> builds for it (the tree builder
  adds no wrapper element), and a parser that knows these fragments.
\<close>

definition name_p :: "string \<Rightarrow> element" where
  "name_p s = Tag ''p'' [''sc-4984dd93-0'', ''kKpPOn''] [NavigableString s]"

definition cap_span :: "string \<Rightarrow> element" where
  "cap_span s = Tag ''span'' [''sc-7bc56c81-1'', ''bCdPBp''] [NavigableString s]"

definition document :: "element list \<Rightarrow> element" where
  "document kids = Tag ''[document]'' [] kids"

definition markup_top3 :: string where
  \<open>markup_top3 = ''<tbody><tr><p class="sc-4984dd93-0 kKpPOn">Bitcoin</p><span class="sc-7bc56c81-1 bCdPBp">$100</span></tr><tr><p class="sc-4984dd93-0 kKpPOn">Ethereum</p><span class="sc-7bc56c81-1 bCdPBp">$300</span></tr><tr><p class="sc-4984dd93-0 kKpPOn">Tether</p><span class="sc-7bc56c81-1 bCdPBp">$600</span></tr></tbody>''\<close>

definition tbody_top3 :: element where
  "tbody_top3 = Tag ''tbody'' []
     [Tag ''tr'' [] [name_p ''Bitcoin'', cap_span ''$100''],
      Tag ''tr'' [] [name_p ''Ethereum'', cap_span ''$300''],
      Tag ''tr'' [] [name_p ''Tether'', cap_span ''$600'']]"

definition markup_surplus :: string where
  \<open>markup_surplus = ''<tbody><tr><p class="sc-4984dd93-0 kKpPOn">Bitcoin</p><span class="sc-7bc56c81-1 bCdPBp">$100</span></tr><tr><span class="sc-7bc56c81-1 bCdPBp">$300</span></tr></tbody>''\<close>

definition tbody_surplus :: element where
  "tbody_surplus = Tag ''tbody'' []
     [Tag ''tr'' [] [name_p ''Bitcoin'', cap_span ''$100''],
      Tag ''tr'' [] [cap_span ''$300'']]"

definition markup_nocaps :: string where
  \<open>markup_nocaps = ''<tbody><tr><p class="sc-4984dd93-0 kKpPOn">Bitcoin</p></tr></tbody>''\<close>

definition tbody_nocaps :: element where
  "tbody_nocaps = Tag ''tbody'' [] [Tag ''tr'' [] [name_p ''Bitcoin'']]"

definition markup_notbody :: string where
  \<open>markup_notbody = ''<div><p class="sc-4984dd93-0 kKpPOn">Bitcoin</p><span class="sc-7bc56c81-1 bCdPBp">$100</span></div>''\<close>

definition div_notbody :: element where
  "div_notbody = Tag ''div'' [] [name_p ''Bitcoin'', cap_span ''$100'']"

definition markup_badcap :: string where
  \<open>markup_badcap = ''<tbody><tr><p class="sc-4984dd93-0 kKpPOn">Bitcoin</p><span class="sc-7bc56c81-1 bCdPBp">--</span></tr></tbody>''\<close>

definition tbody_badcap :: element where
  "tbody_badcap = Tag ''tbody'' [] [Tag ''tr'' [] [name_p ''Bitcoin'', cap_span ''--'']]"

definition markup_nan :: string where
  \<open>markup_nan = ''<tbody><tr><p class="sc-4984dd93-0 kKpPOn">Bitcoin</p><span class="sc-7bc56c81-1 bCdPBp">nan</span></tr></tbody>''\<close>

definition tbody_nan :: element where
  "tbody_nan = Tag ''tbody'' [] [Tag ''tr'' [] [name_p ''Bitcoin'', cap_span ''nan'']]"

definition markup_zero :: string where
  \<open>markup_zero = ''<tbody><tr><p class="sc-4984dd93-0 kKpPOn">Bitcoin</p><span class="sc-7bc56c81-1 bCdPBp">$0</span></tr></tbody>''\<close>

definition tbody_zero :: element where
  "tbody_zero = Tag ''tbody'' [] [Tag ''tr'' [] [name_p ''Bitcoin'', cap_span ''$0'']]"

definition markup_two_zero :: string where
  \<open>markup_two_zero = ''<tbody><tr><p class="sc-4984dd93-0 kKpPOn">Bitcoin</p><span class="sc-7bc56c81-1 bCdPBp">$0</span></tr><tr><p class="sc-4984dd93-0 kKpPOn">Ethereum</p></tr></tbody>''\<close>

definition tbody_two_zero :: element where
  "tbody_two_zero = Tag ''tbody'' []
     [Tag ''tr'' [] [name_p ''Bitcoin'', cap_span ''$0''], Tag ''tr'' [] [name_p ''Ethereum'']]"

definition markup_two_badcap :: string where
  \<open>markup_two_badcap = ''<tbody><tr><p class="sc-4984dd93-0 kKpPOn">Bitcoin</p><span class="sc-7bc56c81-1 bCdPBp">--</span></tr><tr><p class="sc-4984dd93-0 kKpPOn">Ethereum</p></tr></tbody>''\<close>

definition tbody_two_badcap :: element where
  "tbody_two_badcap = Tag ''tbody'' []
     [Tag ''tr'' [] [name_p ''Bitcoin'', cap_span ''--''], Tag ''tr'' [] [name_p ''Ethereum'']]"

definition markup_thirds :: string where
  \<open>markup_thirds = ''<tbody><tr><p class="sc-4984dd93-0 kKpPOn">Bitcoin</p><span class="sc-7bc56c81-1 bCdPBp">$1</span></tr><tr><p class="sc-4984dd93-0 kKpPOn">Ethereum</p><span class="sc-7bc56c81-1 bCdPBp">$1</span></tr><tr><p class="sc-4984dd93-0 kKpPOn">Tether</p><span class="sc-7bc56c81-1 bCdPBp">$1</span></tr></tbody>''\<close>

definition tbody_thirds :: element where
  "tbody_thirds = Tag ''tbody'' []
     [Tag ''tr'' [] [name_p ''Bitcoin'', cap_span ''$1''],
      Tag ''tr'' [] [name_p ''Ethereum'', cap_span ''$1''],
      Tag ''tr'' [] [name_p ''Tether'', cap_span ''$1'']]"

definition markup_huge :: string where
  \<open>markup_huge = ''<tbody><tr><p class="sc-4984dd93-0 kKpPOn">Bitcoin</p><span class="sc-7bc56c81-1 bCdPBp">1e308</span></tr><tr><p class="sc-4984dd93-0 kKpPOn">Ethereum</p><span class="sc-7bc56c81-1 bCdPBp">1e308</span></tr></tbody>''\<close>

definition tbody_huge :: element where
  "tbody_huge = Tag ''tbody'' []
     [Tag ''tr'' [] [name_p ''Bitcoin'', cap_span ''1e308''],
      Tag ''tr'' [] [name_p ''Ethereum'', cap_span ''1e308'']]"

definition markup_negative :: string where
  \<open>markup_negative = ''<tbody><tr><p class="sc-4984dd93-0 kKpPOn">Bitcoin</p><span class="sc-7bc56c81-1 bCdPBp">-1</span></tr><tr><p class="sc-4984dd93-0 kKpPOn">Ethereum</p><span class="sc-7bc56c81-1 bCdPBp">1.0000000000000002</span></tr></tbody>''\<close>

definition tbody_negative :: element where
  "tbody_negative = Tag ''tbody'' []
     [Tag ''tr'' [] [name_p ''Bitcoin'', cap_span ''-1''],
      Tag ''tr'' [] [name_p ''Ethereum'', cap_span ''1.0000000000000002'']]"

definition parser_ex :: "string \<Rightarrow> element" where
  "parser_ex s =
     (if s = markup_top3 then document [tbody_top3]
      else if s = markup_thirds then document [tbody_thirds]
      else if s = markup_huge then document [tbody_huge]
      else if s = markup_negative then document [tbody_negative]
      else if s = markup_zero then document [tbody_zero]
      else if s = markup_two_zero then document [tbody_two_zero]
      else if s = markup_two_badcap then document [tbody_two_badcap]
      else if s = markup_nan then document [tbody_nan]
      else if s = markup_surplus then document [tbody_surplus]
      else if s = markup_nocaps then document [tbody_nocaps]
      else if s = markup_notbody then document [div_notbody]
      else if s = markup_badcap then document [tbody_badcap]
      else document [])"

text \<open>\<open>str\<close> on the floats that occur in the records of \<open>markup_top3\<close>.\<close>

definition str_ex :: "pyfloat \<Rightarrow> string" where
  "str_ex x =
     (if x = Finite 100 then ''100.0'' else if x = Finite 300 then ''300.0''
      else if x = Finite 600 then ''600.0'' else if x = Finite 10 then ''10.0''
      else if x = Finite 30 then ''30.0'' else if x = Finite 60 then ''60.0'' else ''nan'')"

text \<open>A world for the examples.\<close>

definition clock_ex :: datetime where
  "clock_ex = \<lparr>year = 2026, month = 11, day = 3, hour = 7, minute = 5\<rparr>"

definition world_ex :: "string \<Rightarrow> world" where
  "world_ex markup = \<lparr>page_source = Inr markup, clock = clock_ex, files = Map.empty, unwritable = {}\<rparr>"

section \<open>The two loops of \<open>get_content\<close>\<close>

lemma float_of_str_error: "float_of_str rnd s = Inl e \<Longrightarrow> e = ValueError"
  by (auto simp: float_of_str_def split: option.splits prod.splits if_splits)

lemma fdiv_error: "fdiv rnd a b = Inl e \<Longrightarrow> e = ZeroDivisionError \<and> b = Finite 0"
  by (cases "(rnd, a, b)" rule: fdiv.cases) (auto split: if_splits)

lemma fdiv_returns: "b \<noteq> Finite 0 \<Longrightarrow> \<exists>q. fdiv rnd a b = Inr q"
  by (cases "(rnd, a, b)" rule: fdiv.cases) auto

lemma sum_caps_Inr:
  "sum_caps rnd tags acc = Inr tot \<Longrightarrow>
   \<exists>vs. map (\<lambda>t. float_of_str rnd (cap_str t)) tags = map Inr vs \<and> tot = foldl (fadd rnd) acc vs"
proof (induction tags arbitrary: acc)
  case Nil
  then show ?case by simp
next
  case (Cons t tags)
  from Cons.prems obtain v where v: "float_of_str rnd (cap_str t) = Inr v"
    and rest: "sum_caps rnd tags (fadd rnd acc v) = Inr tot"
    by (auto split: sum.splits)
  from Cons.IH [OF rest] obtain vs
    where "map (\<lambda>t. float_of_str rnd (cap_str t)) tags = map Inr vs"
      and "tot = foldl (fadd rnd) (fadd rnd acc v) vs" by blast
  with v have "map (\<lambda>t. float_of_str rnd (cap_str t)) (t # tags) = map Inr (v # vs)
      \<and> tot = foldl (fadd rnd) acc (v # vs)" by simp
  then show ?case by blast
qed

lemma sum_caps_parsed:
  "map (\<lambda>t. float_of_str rnd (cap_str t)) tags = map Inr vs \<Longrightarrow>
   sum_caps rnd tags acc = Inr (foldl (fadd rnd) acc vs)"
  by (induction tags arbitrary: acc vs) auto

lemma sum_caps_Inl:
  "sum_caps rnd tags acc = Inl e \<Longrightarrow>
   e = ValueError \<and> (\<exists>t \<in> set tags. float_of_str rnd (cap_str t) = Inl ValueError)"
  by (induction tags arbitrary: acc) (auto split: sum.splits dest: float_of_str_error)

lemma sum_caps_fails:
  "t \<in> set tags \<Longrightarrow> float_of_str rnd (cap_str t) = Inl ValueError \<Longrightarrow>
   sum_caps rnd tags acc = Inl ValueError"
proof (induction tags arbitrary: acc)
  case Nil
  then show ?case by simp
next
  case (Cons u tags)
  show ?case
  proof (cases "float_of_str rnd (cap_str u)")
    case (Inl e)
    then show ?thesis using float_of_str_error [OF Inl] by simp
  next
    case (Inr v)
    with Cons.prems have "t \<in> set tags" by auto
    with Cons.IH Cons.prems(2) Inr show ?thesis by simp
  qed
qed

lemma build_info_Inr:
  "build_info rnd tot ps acc = Inr out \<Longrightarrow>
   \<exists>recs. out = acc @ recs \<and> list_all2 (coin_record rnd tot) ps recs"
proof (induction ps arbitrary: acc)
  case Nil
  then show ?case by simp
next
  case (Cons p ps)
  obtain n c where p: "p = (n, c)" by (cases p)
  from Cons.prems p obtain v q where v: "float_of_str rnd (cap_str c) = Inr v"
    and q: "fdiv rnd v tot = Inr q"
    and rest: "build_info rnd tot ps (acc @ [(strip (text_of n), v, fmul rnd q (Finite 100))]) = Inr out"
    by (auto split: sum.splits)
  from Cons.IH [OF rest] obtain recs
    where out: "out = (acc @ [(strip (text_of n), v, fmul rnd q (Finite 100))]) @ recs"
      and all: "list_all2 (coin_record rnd tot) ps recs" by blast
  have "coin_record rnd tot p (strip (text_of n), v, fmul rnd q (Finite 100))"
    using v q p by (simp add: coin_record_def)
  with out all have "out = acc @ ((strip (text_of n), v, fmul rnd q (Finite 100)) # recs)
     \<and> list_all2 (coin_record rnd tot) (p # ps) ((strip (text_of n), v, fmul rnd q (Finite 100)) # recs)"
    by simp
  then show ?case by blast
qed

lemma build_info_returns:
  "\<forall>p \<in> set ps. \<exists>v. float_of_str rnd (cap_str (snd p)) = Inr v \<Longrightarrow>
   ps = [] \<or> tot \<noteq> Finite 0 \<Longrightarrow> \<exists>out. build_info rnd tot ps acc = Inr out"
proof (induction ps arbitrary: acc)
  case Nil
  then show ?case by simp
next
  case (Cons p ps)
  obtain n c where p: "p = (n, c)" by (cases p)
  from Cons.prems(1) p obtain v where v: "float_of_str rnd (cap_str c) = Inr v" by auto
  from Cons.prems(2) have nz: "tot \<noteq> Finite 0" by simp
  then obtain q where q: "fdiv rnd v tot = Inr q" using fdiv_returns by blast
  have "\<exists>out. build_info rnd tot ps (acc @ [(strip (text_of n), v, fmul rnd q (Finite 100))]) = Inr out"
    using Cons.IH Cons.prems(1) nz by simp
  with p v q show ?case by simp
qed

lemma build_info_zero:
  "ps \<noteq> [] \<Longrightarrow> \<forall>p \<in> set ps. \<exists>v. float_of_str rnd (cap_str (snd p)) = Inr v \<Longrightarrow>
   build_info rnd (Finite 0) ps acc = Inl ZeroDivisionError"
  by (cases ps) (auto split: sum.splits)

section \<open>The example documents, evaluated\<close>

lemma find_top3: "find ''tbody'' (parser_ex markup_top3) = Some tbody_top3"
  by code_simp
lemma names_top3: "coin_name_tags tbody_top3 = [name_p ''Bitcoin'', name_p ''Ethereum'', name_p ''Tether'']"
  by code_simp
lemma caps_top3: "capitalization_tags tbody_top3 = [cap_span ''$100'', cap_span ''$300'', cap_span ''$600'']"
  by code_simp
lemma find_surplus: "find ''tbody'' (parser_ex markup_surplus) = Some tbody_surplus"
  by code_simp
lemma names_surplus: "coin_name_tags tbody_surplus = [name_p ''Bitcoin'']"
  by code_simp
lemma caps_surplus: "capitalization_tags tbody_surplus = [cap_span ''$100'', cap_span ''$300'']"
  by code_simp
lemma find_nocaps: "find ''tbody'' (parser_ex markup_nocaps) = Some tbody_nocaps"
  by code_simp
lemma caps_nocaps: "capitalization_tags tbody_nocaps = []"
  by code_simp
lemma find_notbody: "find ''tbody'' (parser_ex markup_notbody) = None"
  by code_simp
lemma find_badcap: "find ''tbody'' (parser_ex markup_badcap) = Some tbody_badcap"
  by code_simp
lemma caps_badcap: "capitalization_tags tbody_badcap = [cap_span ''--'']"
  by code_simp
lemma float_badcap: "float_of_str round_double (cap_str (cap_span ''--'')) = Inl ValueError"
  by code_simp
lemma float_caps: "map (\<lambda>t. float_of_str round_double (cap_str t)) [cap_span ''$100'', cap_span ''$300'', cap_span ''$600'']
   = map Inr [Finite 100, Finite 300, Finite 600]"
  by code_simp
lemma name_texts: "map (\<lambda>t. strip (text_of t)) [name_p ''Bitcoin'', name_p ''Ethereum'', name_p ''Tether''] = [''Bitcoin'', ''Ethereum'', ''Tether'']"
  by code_simp

lemma float_caps_surplus: "map (\<lambda>t. float_of_str round_double (cap_str t)) [cap_span ''$100'', cap_span ''$300'']
   = map Inr [Finite 100, Finite 300]"
  by code_simp
lemma total_top3: "foldl (fadd round_double) (Finite 0) [Finite 100, Finite 300, Finite 600] = Finite 1000"
  by code_simp
lemma total_surplus: "foldl (fadd round_double) (Finite 0) [Finite 100, Finite 300] = Finite 400"
  by code_simp

lemma find_zero: "find ''tbody'' (parser_ex markup_zero) = Some tbody_zero"
  by code_simp
lemma names_zero: "coin_name_tags tbody_zero = [name_p ''Bitcoin'']"
  by code_simp
lemma caps_zero: "capitalization_tags tbody_zero = [cap_span ''$0'']"
  by code_simp
lemma names_badcap: "coin_name_tags tbody_badcap = [name_p ''Bitcoin'']"
  by code_simp
lemma sum_caps_zero: "sum_caps round_double [cap_span ''$0''] (Finite 0) = Inr (Finite 0)"
  by code_simp
lemma build_info_zero_one:
  "build_info round_double (Finite 0) (zip [name_p ''Bitcoin''] [cap_span ''$0'']) [] = Inl ZeroDivisionError"
  by code_simp
lemma build_info_zero_two:
  "build_info round_double (Finite 0) (zip [name_p ''Bitcoin'', name_p ''Ethereum''] [cap_span ''$0'']) []
     = Inl ZeroDivisionError"
  by code_simp
lemma sum_caps_badcap: "sum_caps round_double [cap_span ''--''] (Finite 0) = Inl ValueError"
  by code_simp
lemma find_two_zero: "find ''tbody'' (parser_ex markup_two_zero) = Some tbody_two_zero"
  by code_simp
lemma names_two_zero: "coin_name_tags tbody_two_zero = [name_p ''Bitcoin'', name_p ''Ethereum'']"
  by code_simp
lemma caps_two_zero: "capitalization_tags tbody_two_zero = [cap_span ''$0'']"
  by code_simp
lemma find_two_badcap: "find ''tbody'' (parser_ex markup_two_badcap) = Some tbody_two_badcap"
  by code_simp
lemma names_two_badcap: "coin_name_tags tbody_two_badcap = [name_p ''Bitcoin'', name_p ''Ethereum'']"
  by code_simp
lemma caps_two_badcap: "capitalization_tags tbody_two_badcap = [cap_span ''--'']"
  by code_simp

section \<open>The result of \<open>get_content\<close>\<close>

lemma get_content_tbody:
  "find ''tbody'' (parser html_text) = Some table \<Longrightarrow>
   get_content rnd parser html_text =
     (case sum_caps rnd (capitalization_tags table) (Finite 0) of
        Inl e \<Rightarrow> Inl e
      | Inr tot \<Rightarrow> build_info rnd tot (zip (coin_name_tags table) (capitalization_tags table)) [])"
  by (simp add: get_content_def)

lemma get_content_no_tbody:
  "find ''tbody'' (parser html_text) = None \<Longrightarrow> get_content rnd parser html_text = Inl AttributeError"
  by (simp add: get_content_def)

lemma parsed_zip:
  assumes "map (\<lambda>t. float_of_str rnd (cap_str t)) cs = map Inr vs"
  shows "\<forall>p \<in> set (zip ns cs). \<exists>v. float_of_str rnd (cap_str (snd p)) = Inr v"
proof
  fix p assume "p \<in> set (zip ns cs)"
  then have "snd p \<in> set cs" by (metis prod.collapse set_zip_rightD)
  then obtain i where i: "i < length cs" "snd p = cs ! i" by (auto simp: in_set_conv_nth)
  from assms have len: "length vs = length cs" by (metis length_map)
  from assms i have "map (\<lambda>t. float_of_str rnd (cap_str t)) cs ! i = map Inr vs ! i" by simp
  with i len have "float_of_str rnd (cap_str (snd p)) = Inr (vs ! i)" by simp
  then show "\<exists>v. float_of_str rnd (cap_str (snd p)) = Inr v" by blast
qed

lemma get_content_result:
  assumes tbody: "find ''tbody'' (parser html_text) = Some table"
    and parsed: "map (\<lambda>t. float_of_str rnd (cap_str t)) (capitalization_tags table) = map Inr vs"
    and nz: "zip (coin_name_tags table) (capitalization_tags table) = [] \<or>
             foldl (fadd rnd) (Finite 0) vs \<noteq> Finite 0"
  shows "\<exists>coins_info. get_content rnd parser html_text = Inr coins_info \<and>
           list_all2 (coin_record rnd (foldl (fadd rnd) (Finite 0) vs))
             (zip (coin_name_tags table) (capitalization_tags table)) coins_info"
proof -
  let ?tot = "foldl (fadd rnd) (Finite 0) vs"
  let ?ps = "zip (coin_name_tags table) (capitalization_tags table)"
  have s: "sum_caps rnd (capitalization_tags table) (Finite 0) = Inr ?tot"
    using parsed by (rule sum_caps_parsed)
  have gc: "get_content rnd parser html_text = build_info rnd ?tot ?ps []"
    using tbody s by (simp add: get_content_tbody)
  obtain out where out: "build_info rnd ?tot ?ps [] = Inr out"
    using build_info_returns [OF parsed_zip [OF parsed] nz] by blast
  from build_info_Inr [OF out] have "list_all2 (coin_record rnd ?tot) ?ps out" by simp
  with gc out show ?thesis by simp
qed

lemma coin_record_nth:
  assumes parsed: "map (\<lambda>t. float_of_str rnd (cap_str t)) cs = map Inr vs"
    and i: "i < length ns" "i < length cs"
    and r: "coin_record rnd tot (zip ns cs ! i) r"
  shows "\<exists>q. fdiv rnd (vs ! i) tot = Inr q \<and> r = (strip (text_of (ns ! i)), vs ! i, fmul rnd q (Finite 100))"
proof -
  from parsed have len: "length vs = length cs" by (metis length_map)
  from parsed i have "map (\<lambda>t. float_of_str rnd (cap_str t)) cs ! i = map Inr vs ! i" by simp
  with i len have v: "float_of_str rnd (cap_str (cs ! i)) = Inr (vs ! i)" by simp
  from r i v show ?thesis by (auto simp: coin_record_def)
qed

text \<open>
  Claim C8. When the table body has no capitalization element, the first loop leaves the
  total at zero, \<open>zip\<close> forms no pair, no division is evaluated, and \<open>get_content\<close> returns
  the empty list without raising.
\<close>

theorem get_content_no_caps:
  assumes "find ''tbody'' (parser html_text) = Some table"
    and "capitalization_tags table = []"
  shows "sum_caps rnd (capitalization_tags table) (Finite 0) = Inr (Finite 0) \<and>
         get_content rnd parser html_text = Inr []"
  using assms by (simp add: get_content_tbody)

theorem get_content_no_caps_witness:
  "find ''tbody'' (parser_ex markup_nocaps) = Some tbody_nocaps \<and>
   capitalization_tags tbody_nocaps = [] \<and>
   sum_caps round_double (capitalization_tags tbody_nocaps) (Finite 0) = Inr (Finite 0) \<and>
   get_content round_double parser_ex markup_nocaps = Inr []"
  using get_content_no_caps [where parser = parser_ex and html_text = markup_nocaps
      and table = tbody_nocaps and rnd = round_double, OF find_nocaps caps_nocaps]
    find_nocaps caps_nocaps
  by simp

text \<open>
  Claim C2, as amended. With a table body, \<open>N\<close> name elements and \<open>N\<close> capitalization
  elements, every capitalization string accepted by \<open>float\<close> (with values \<open>vs\<close>) and, unless
  \<open>N = 0\<close>, a total that is not zero, \<open>get_content\<close> returns exactly \<open>N\<close> records, and the
  \<open>i\<close>-th record holds the text of the \<open>i\<close>-th name element and the value of the \<open>i\<close>-th
  capitalization element, both lists being in document order.
\<close>

theorem get_content_equal_counts:
  assumes tbody: "find ''tbody'' (parser html_text) = Some table"
    and names: "length (coin_name_tags table) = N"
    and caps: "length (capitalization_tags table) = N"
    and parsed: "map (\<lambda>t. float_of_str rnd (cap_str t)) (capitalization_tags table) = map Inr vs"
    and nz: "N = 0 \<or> foldl (fadd rnd) (Finite 0) vs \<noteq> Finite 0"
  shows "\<exists>coins_info. get_content rnd parser html_text = Inr coins_info \<and> length coins_info = N \<and>
           (\<forall>i<N. \<exists>pct. coins_info ! i = (strip (text_of (coin_name_tags table ! i)), vs ! i, pct))"
proof -
  let ?tot = "foldl (fadd rnd) (Finite 0) vs"
  let ?ps = "zip (coin_name_tags table) (capitalization_tags table)"
  from names caps nz have nz': "?ps = [] \<or> ?tot \<noteq> Finite 0" by auto
  from get_content_result [of parser html_text table rnd vs, OF tbody parsed nz'] obtain coins_info
    where gc: "get_content rnd parser html_text = Inr coins_info"
      and all: "list_all2 (coin_record rnd ?tot) ?ps coins_info" by blast
  from all names caps have len: "length coins_info = N"
    by (auto dest: list_all2_lengthD)
  have "\<exists>pct. coins_info ! i = (strip (text_of (coin_name_tags table ! i)), vs ! i, pct)"
    if "i < N" for i
  proof -
    from that names caps have i: "i < length (coin_name_tags table)" "i < length (capitalization_tags table)"
      by simp_all
    then have "i < length ?ps" by simp
    with all have "coin_record rnd ?tot (?ps ! i) (coins_info ! i)" by (rule list_all2_nthD)
    from coin_record_nth [OF parsed i this] show ?thesis by blast
  qed
  with gc len show ?thesis by blast
qed

theorem get_content_equal_counts_witness:
  "find ''tbody'' (parser_ex markup_top3) = Some tbody_top3 \<and>
   length (coin_name_tags tbody_top3) = 3 \<and> length (capitalization_tags tbody_top3) = 3 \<and>
   map (\<lambda>t. float_of_str round_double (cap_str t)) (capitalization_tags tbody_top3)
     = map Inr [Finite 100, Finite 300, Finite 600] \<and>
   foldl (fadd round_double) (Finite 0) [Finite 100, Finite 300, Finite 600] \<noteq> Finite 0 \<and>
   (\<exists>coins_info. get_content round_double parser_ex markup_top3 = Inr coins_info \<and>
      length coins_info = 3 \<and>
      (\<forall>i<3. \<exists>pct. coins_info ! i =
         (strip (text_of (coin_name_tags tbody_top3 ! i)), [Finite 100, Finite 300, Finite 600] ! i, pct)))"
proof -
  have n: "length (coin_name_tags tbody_top3) = 3" by (simp add: names_top3)
  have c: "length (capitalization_tags tbody_top3) = 3" by (simp add: caps_top3)
  have p: "map (\<lambda>t. float_of_str round_double (cap_str t)) (capitalization_tags tbody_top3)
     = map Inr [Finite 100, Finite 300, Finite 600]"
    by (simp only: caps_top3 float_caps)
  have z: "foldl (fadd round_double) (Finite 0) [Finite 100, Finite 300, Finite 600] \<noteq> Finite 0"
    by (simp only: total_top3) simp
  from z have z': "(3::nat) = 0 \<or>
      foldl (fadd round_double) (Finite 0) [Finite 100, Finite 300, Finite 600] \<noteq> Finite 0" ..
  show ?thesis
    using get_content_equal_counts [where parser = parser_ex and html_text = markup_top3
        and table = tbody_top3 and rnd = round_double and N = 3, OF find_top3 n c p z']
      find_top3 n c p z
    by simp
qed

text \<open>
  Claim C2 fails as stated, for every fragment with \<open>N\<close> and \<open>N\<close> elements. With one name
  element and the one capitalization element \<open>$0\<close> the total is zero and the division of
  line 68 raises \<open>ZeroDivisionError\<close>; with the capitalization text \<open>--\<close>, \<open>float\<close> raises
  \<open>ValueError\<close>. In both runs \<open>N = 1\<close> and no record is returned.
\<close>

theorem equal_counts_counterexample:
  "find ''tbody'' (parser_ex markup_zero) = Some tbody_zero \<and>
   length (coin_name_tags tbody_zero) = 1 \<and> length (capitalization_tags tbody_zero) = 1 \<and>
   get_content round_double parser_ex markup_zero = Inl ZeroDivisionError \<and>
   find ''tbody'' (parser_ex markup_badcap) = Some tbody_badcap \<and>
   length (coin_name_tags tbody_badcap) = 1 \<and> length (capitalization_tags tbody_badcap) = 1 \<and>
   get_content round_double parser_ex markup_badcap = Inl ValueError"
proof -
  have a: "length (coin_name_tags tbody_zero) = 1" "length (capitalization_tags tbody_zero) = 1"
    by (simp_all add: names_zero caps_zero)
  have b: "get_content round_double parser_ex markup_zero = Inl ZeroDivisionError"
    by (simp only: get_content_tbody [of parser_ex markup_zero, OF find_zero] names_zero caps_zero
        sum_caps_zero build_info_zero_one sum.case)
  have c: "length (coin_name_tags tbody_badcap) = 1" "length (capitalization_tags tbody_badcap) = 1"
    by (simp_all add: names_badcap caps_badcap)
  have d: "get_content round_double parser_ex markup_badcap = Inl ValueError"
    by (simp only: get_content_tbody [of parser_ex markup_badcap, OF find_badcap] caps_badcap
        sum_caps_badcap sum.case)
  from find_zero a b find_badcap c d show ?thesis by (intro conjI)
qed

text \<open>
  Claim C9, as amended. When the two lists differ in length, every capitalization string
  is accepted by \<open>float\<close> (with values \<open>vs\<close>) and the total is not zero unless no pair is
  formed, \<open>get_content\<close> returns as many records as the shorter list has elements, the
  \<open>i\<close>-th record pairs the \<open>i\<close>-th name with the \<open>i\<close>-th capitalization, and its percentage
  is the capitalization divided by the sum \<open>foldl (fadd rnd) (Finite 0) vs\<close> over all
  capitalization elements, the unpaired ones included, times 100.
\<close>

theorem get_content_unequal_counts:
  assumes tbody: "find ''tbody'' (parser html_text) = Some table"
    and differ: "length (coin_name_tags table) \<noteq> length (capitalization_tags table)"
    and parsed: "map (\<lambda>t. float_of_str rnd (cap_str t)) (capitalization_tags table) = map Inr vs"
    and nz: "min (length (coin_name_tags table)) (length (capitalization_tags table)) = 0 \<or>
             foldl (fadd rnd) (Finite 0) vs \<noteq> Finite 0"
  shows "\<exists>coins_info. get_content rnd parser html_text = Inr coins_info \<and>
           length coins_info = min (length (coin_name_tags table)) (length (capitalization_tags table)) \<and>
           (\<forall>i<length coins_info. \<exists>q.
               fdiv rnd (vs ! i) (foldl (fadd rnd) (Finite 0) vs) = Inr q \<and>
               coins_info ! i = (strip (text_of (coin_name_tags table ! i)), vs ! i, fmul rnd q (Finite 100)))"
proof -
  let ?tot = "foldl (fadd rnd) (Finite 0) vs"
  let ?ns = "coin_name_tags table" and ?cs = "capitalization_tags table"
  from nz have nz': "zip ?ns ?cs = [] \<or> ?tot \<noteq> Finite 0"
    by (cases ?ns; cases ?cs) auto
  from get_content_result [of parser html_text table rnd vs, OF tbody parsed nz'] obtain coins_info
    where gc: "get_content rnd parser html_text = Inr coins_info"
      and all: "list_all2 (coin_record rnd ?tot) (zip ?ns ?cs) coins_info" by blast
  from all have len: "length coins_info = min (length ?ns) (length ?cs)"
    by (auto dest: list_all2_lengthD)
  have "\<exists>q. fdiv rnd (vs ! i) ?tot = Inr q \<and>
          coins_info ! i = (strip (text_of (?ns ! i)), vs ! i, fmul rnd q (Finite 100))"
    if "i < length coins_info" for i
  proof -
    from that len have i: "i < length ?ns" "i < length ?cs" by simp_all
    then have "i < length (zip ?ns ?cs)" by simp
    with all have "coin_record rnd ?tot (zip ?ns ?cs ! i) (coins_info ! i)" by (rule list_all2_nthD)
    from coin_record_nth [OF parsed i this] show ?thesis .
  qed
  with gc len show ?thesis by blast
qed

theorem get_content_unequal_counts_witness:
  "find ''tbody'' (parser_ex markup_surplus) = Some tbody_surplus \<and>
   length (coin_name_tags tbody_surplus) = 1 \<and> length (capitalization_tags tbody_surplus) = 2 \<and>
   map (\<lambda>t. float_of_str round_double (cap_str t)) (capitalization_tags tbody_surplus)
     = map Inr [Finite 100, Finite 300] \<and>
   foldl (fadd round_double) (Finite 0) [Finite 100, Finite 300] = Finite 400 \<and>
   (\<exists>coins_info. get_content round_double parser_ex markup_surplus = Inr coins_info \<and>
      length coins_info = 1 \<and>
      (\<forall>i<length coins_info. \<exists>q. fdiv round_double ([Finite 100, Finite 300] ! i) (Finite 400) = Inr q \<and>
         coins_info ! i = (strip (text_of (coin_name_tags tbody_surplus ! i)),
                          [Finite 100, Finite 300] ! i, fmul round_double q (Finite 100))))"
proof -
  have n: "length (coin_name_tags tbody_surplus) = 1" by (simp add: names_surplus)
  have c: "length (capitalization_tags tbody_surplus) = 2" by (simp add: caps_surplus)
  have d: "length (coin_name_tags tbody_surplus) \<noteq> length (capitalization_tags tbody_surplus)"
    by (simp add: n c)
  have p: "map (\<lambda>t. float_of_str round_double (cap_str t)) (capitalization_tags tbody_surplus)
     = map Inr [Finite 100, Finite 300]"
    by (simp only: caps_surplus float_caps_surplus)
  have z: "min (length (coin_name_tags tbody_surplus)) (length (capitalization_tags tbody_surplus)) = 0 \<or>
      foldl (fadd round_double) (Finite 0) [Finite 100, Finite 300] \<noteq> Finite 0"
    by (simp only: total_surplus) simp
  show ?thesis
    using get_content_unequal_counts [where parser = parser_ex and html_text = markup_surplus
        and table = tbody_surplus and rnd = round_double, OF find_surplus d p z]
      find_surplus n c p total_surplus
    by simp
qed

text \<open>
  Claim C9 fails as stated, for every input with differing counts. With two name elements
  and the one capitalization element \<open>$0\<close>, the smaller count is 1 but the division by the
  zero total raises \<open>ZeroDivisionError\<close>; with the capitalization text \<open>--\<close>, \<open>float\<close> raises
  \<open>ValueError\<close>. No record is returned in either run.
\<close>

theorem unequal_counts_counterexample:
  "find ''tbody'' (parser_ex markup_two_zero) = Some tbody_two_zero \<and>
   length (coin_name_tags tbody_two_zero) = 2 \<and> length (capitalization_tags tbody_two_zero) = 1 \<and>
   get_content round_double parser_ex markup_two_zero = Inl ZeroDivisionError \<and>
   find ''tbody'' (parser_ex markup_two_badcap) = Some tbody_two_badcap \<and>
   length (coin_name_tags tbody_two_badcap) = 2 \<and> length (capitalization_tags tbody_two_badcap) = 1 \<and>
   get_content round_double parser_ex markup_two_badcap = Inl ValueError"
proof -
  have a: "length (coin_name_tags tbody_two_zero) = 2" "length (capitalization_tags tbody_two_zero) = 1"
    by (simp_all add: names_two_zero caps_two_zero)
  have b: "get_content round_double parser_ex markup_two_zero = Inl ZeroDivisionError"
    by (simp only: get_content_tbody [of parser_ex markup_two_zero, OF find_two_zero] names_two_zero
        caps_two_zero sum_caps_zero build_info_zero_two sum.case)
  have c: "length (coin_name_tags tbody_two_badcap) = 2" "length (capitalization_tags tbody_two_badcap) = 1"
    by (simp_all add: names_two_badcap caps_two_badcap)
  have d: "get_content round_double parser_ex markup_two_badcap = Inl ValueError"
    by (simp only: get_content_tbody [of parser_ex markup_two_badcap, OF find_two_badcap]
        caps_two_badcap sum_caps_badcap sum.case)
  from find_two_zero a b find_two_badcap c d show ?thesis by (intro conjI)
qed

section \<open>Faults\<close>

lemma get_content_fault_no_output:
  "get_html w = Inr html_text \<Longrightarrow> get_content rnd parser html_text = Inl e \<Longrightarrow>
   write_cmc_top rnd parser float_str w = (Some e, w)"
  by (simp add: write_cmc_top_def)

lemma get_content_bad_cap:
  assumes "find ''tbody'' (parser html_text) = Some table"
    and "t \<in> set (capitalization_tags table)"
    and "float_of_str rnd (cap_str t) = Inl ValueError"
  shows "get_content rnd parser html_text = Inl ValueError"
  using assms sum_caps_fails [of t "capitalization_tags table" rnd "Finite 0"]
  by (simp add: get_content_tbody)

text \<open>
  Claim C7. A fault in \<open>get_content\<close> is an exception that nothing catches: without a
  \<open>tbody\<close> element the call raises \<open>AttributeError\<close>, with a capitalization string that
  \<open>float\<close> rejects it raises \<open>ValueError\<close>, so no record list is returned; and whatever
  exception \<open>get_content\<close> raises ends \<open>write_cmc_top\<close> with that exception and the world,
  its files included, as it was before the run.
\<close>

theorem extraction_fault_propagates:
  "(find ''tbody'' (parser html_text) = None \<longrightarrow>
      get_content rnd parser html_text = Inl AttributeError) \<and>
   (\<forall>table t. find ''tbody'' (parser html_text) = Some table \<and>
       t \<in> set (capitalization_tags table) \<and> float_of_str rnd (cap_str t) = Inl ValueError \<longrightarrow>
      get_content rnd parser html_text = Inl ValueError) \<and>
   (\<forall>e. get_html w = Inr html_text \<and> get_content rnd parser html_text = Inl e \<longrightarrow>
      write_cmc_top rnd parser float_str w = (Some e, w))"
  using get_content_no_tbody [of parser html_text rnd]
    get_content_bad_cap [of parser html_text _ _ rnd]
    get_content_fault_no_output [of w html_text rnd parser _ float_str]
  by blast

theorem extraction_fault_propagates_witness:
  "find ''tbody'' (parser_ex markup_notbody) = None \<and>
   get_html (world_ex markup_notbody) = Inr markup_notbody \<and>
   get_content round_double parser_ex markup_notbody = Inl AttributeError \<and>
   write_cmc_top round_double parser_ex str_ex (world_ex markup_notbody)
     = (Some AttributeError, world_ex markup_notbody) \<and>
   find ''tbody'' (parser_ex markup_badcap) = Some tbody_badcap \<and>
   cap_span ''--'' \<in> set (capitalization_tags tbody_badcap) \<and>
   float_of_str round_double (cap_str (cap_span ''--'')) = Inl ValueError \<and>
   get_html (world_ex markup_badcap) = Inr markup_badcap \<and>
   get_content round_double parser_ex markup_badcap = Inl ValueError \<and>
   write_cmc_top round_double parser_ex str_ex (world_ex markup_badcap)
     = (Some ValueError, world_ex markup_badcap)"
proof -
  have h1: "get_html (world_ex markup_notbody) = Inr markup_notbody"
    by (simp add: get_html_def world_ex_def)
  have h2: "get_html (world_ex markup_badcap) = Inr markup_badcap"
    by (simp add: get_html_def world_ex_def)
  have m: "cap_span ''--'' \<in> set (capitalization_tags tbody_badcap)"
    by (simp add: caps_badcap)
  note a = extraction_fault_propagates [where parser = parser_ex and html_text = markup_notbody
      and rnd = round_double and w = "world_ex markup_notbody" and float_str = str_ex]
  note b = extraction_fault_propagates [where parser = parser_ex and html_text = markup_badcap
      and rnd = round_double and w = "world_ex markup_badcap" and float_str = str_ex]
  from a find_notbody have g1: "get_content round_double parser_ex markup_notbody = Inl AttributeError"
    by blast
  from b find_badcap m float_badcap
  have g2: "get_content round_double parser_ex markup_badcap = Inl ValueError" by blast
  from a h1 g1 have w1: "write_cmc_top round_double parser_ex str_ex (world_ex markup_notbody)
     = (Some AttributeError, world_ex markup_notbody)" by blast
  from b h2 g2 have w2: "write_cmc_top round_double parser_ex str_ex (world_ex markup_badcap)
     = (Some ValueError, world_ex markup_badcap)" by blast
  from find_notbody h1 g1 w1 find_badcap m float_badcap h2 g2 w2 show ?thesis by blast
qed

section \<open>The sum of the percentages\<close>

lemma all_Finite_map: "\<forall>v \<in> set vs. \<exists>c. v = Finite c \<Longrightarrow> \<exists>cs. vs = map Finite cs"
proof (induction vs)
  case Nil
  then show ?case by simp
next
  case (Cons v vs)
  then obtain c cs where "v = Finite c" "vs = map Finite cs" by auto
  then have "v # vs = map Finite (c # cs)" by simp
  then show ?case ..
qed

lemma get_content_Inr:
  assumes tbody: "find ''tbody'' (parser html_text) = Some table"
    and ok: "get_content rnd parser html_text = Inr coins_info"
  shows "\<exists>vs. map (\<lambda>t. float_of_str rnd (cap_str t)) (capitalization_tags table) = map Inr vs \<and>
           list_all2 (coin_record rnd (foldl (fadd rnd) (Finite 0) vs))
             (zip (coin_name_tags table) (capitalization_tags table)) coins_info"
proof -
  from ok tbody obtain tot where s: "sum_caps rnd (capitalization_tags table) (Finite 0) = Inr tot"
    and b: "build_info rnd tot (zip (coin_name_tags table) (capitalization_tags table)) [] = Inr coins_info"
    by (auto simp: get_content_tbody [of parser html_text table] split: sum.splits)
  from sum_caps_Inr [OF s] obtain vs
    where vs: "map (\<lambda>t. float_of_str rnd (cap_str t)) (capitalization_tags table) = map Inr vs"
      and tot: "tot = foldl (fadd rnd) (Finite 0) vs" by blast
  from build_info_Inr [OF b] tot
  have "list_all2 (coin_record rnd (foldl (fadd rnd) (Finite 0) vs))
          (zip (coin_name_tags table) (capitalization_tags table)) coins_info" by simp
  with vs show ?thesis by blast
qed

subsection \<open>The rounding error of binary64\<close>

lemma pow2_powi: "pow2 e = 2 powi e"
  by (simp add: pow2_def power_int_def power_one_over)

lemma pow2_pos: "0 < pow2 e"
  by (simp add: pow2_powi)

lemma pow2_add: "pow2 (a + b) = pow2 a * pow2 b"
  by (simp add: pow2_powi power_int_add)

lemma pow2_mono: "a \<le> b \<Longrightarrow> pow2 a \<le> pow2 b"
  by (simp add: pow2_powi power_int_increasing)

lemma pow2_nat: "pow2 (int n) = 2 ^ n"
  by (simp add: pow2_powi)

lemma pow2_Suc: "pow2 (e + 1) = 2 * pow2 e"
  using pow2_add [of e 1] by (simp add: pow2_def)

lemma ilog2_bounds:
  assumes "0 < x"
  shows "pow2 (ilog2 x) \<le> x \<and> x < pow2 (ilog2 x + 1)"
proof -
  obtain a b where q: "quotient_of x = (a, b)" by (cases "quotient_of x")
  then have b: "0 < b" by (rule quotient_of_denom_pos)
  from q have x: "x = of_int a / of_int b" by (rule quotient_of_div)
  with assms b have a: "0 < a" by (simp add: zero_less_divide_iff)
  define la where "la = bitlen a"
  define lb where "lb = bitlen b"
  from a b have l1: "1 \<le> la" "1 \<le> lb" by (simp_all add: la_def lb_def bitlen_alt_def)
  from bitlen_bounds [OF a] have "2 ^ nat (la - 1) \<le> a" "a < 2 ^ nat la" by (simp_all add: la_def)
  then have "(of_int (2 ^ nat (la - 1)) :: rat) \<le> of_int a" "(of_int a :: rat) < of_int (2 ^ nat la)"
    by (simp_all only: of_int_le_iff of_int_less_iff)
  then have ab: "pow2 (la - 1) \<le> of_int a" "of_int a < pow2 la"
    using l1 by (simp_all add: pow2_def)
  from bitlen_bounds [OF b] have "2 ^ nat (lb - 1) \<le> b" "b < 2 ^ nat lb" by (simp_all add: lb_def)
  then have "(of_int (2 ^ nat (lb - 1)) :: rat) \<le> of_int b" "(of_int b :: rat) < of_int (2 ^ nat lb)"
    by (simp_all only: of_int_le_iff of_int_less_iff)
  then have bb: "pow2 (lb - 1) \<le> of_int b" "of_int b < pow2 lb"
    using l1 by (simp_all add: pow2_def)
  have bpos: "(0::rat) < of_int b" using b by simp
  define d where "d = la - lb"
  have up: "x < pow2 (d + 1)"
  proof -
    have "of_int a < pow2 la" by (rule ab)
    also have "pow2 la = pow2 (d + 1) * pow2 (lb - 1)"
      unfolding d_def using pow2_add [of "la - lb + 1" "lb - 1"] by simp
    also have "\<dots> \<le> pow2 (d + 1) * of_int b"
      using bb(1) pow2_pos [of "d + 1"] by (simp add: mult_left_mono)
    finally have "of_int a < pow2 (d + 1) * of_int b" .
    then show ?thesis unfolding x using bpos by (simp add: pos_divide_less_eq)
  qed
  have low: "pow2 (d - 1) \<le> x"
  proof -
    have "pow2 (d - 1) * of_int b \<le> pow2 (d - 1) * pow2 lb"
      using bb(2) pow2_pos [of "d - 1"] by (simp add: mult_left_mono)
    also have "\<dots> = pow2 (la - 1)"
      unfolding d_def using pow2_add [of "la - lb - 1" lb] by simp
    also have "\<dots> \<le> of_int a" by (rule ab)
    finally have "pow2 (d - 1) * of_int b \<le> of_int a" .
    then show ?thesis unfolding x using bpos by (simp add: pos_le_divide_eq)
  qed
  have e: "ilog2 x = (if pow2 d \<le> x then d else d - 1)"
    by (simp add: ilog2_def q la_def lb_def d_def Let_def)
  show ?thesis
  proof (cases "pow2 d \<le> x")
    case True
    with e up show ?thesis by simp
  next
    case False
    with e low show ?thesis by simp
  qed
qed

lemma round_half_even_error: "\<bar>of_int (round_half_even y) - y\<bar> \<le> 1 / 2"
proof -
  have "of_int \<lfloor>y\<rfloor> \<le> y" "y < of_int \<lfloor>y\<rfloor> + 1" by linarith+
  then show ?thesis unfolding round_half_even_def Let_def by (auto simp: abs_le_iff)
qed



lemma pow2_less_cancel: "pow2 a < pow2 b \<Longrightarrow> a < b"
  using pow2_mono [of b a] by (cases "a < b") simp_all

lemma round_double_error:
  assumes lo: "pow2 (- 1022) \<le> x" and hi: "x < pow2 1023"
  shows "\<exists>r. round_double x = Finite r \<and> x * (1 - unit_roundoff) \<le> r \<and> r \<le> x * (1 + unit_roundoff)"
proof -
  from lo pow2_pos [of "- 1022"] have x: "0 < x" by simp
  define e where "e = ilog2 x"
  from ilog2_bounds [OF x] have eb: "pow2 e \<le> x" "x < pow2 (e + 1)" by (simp_all add: e_def)
  from lo eb(2) have "pow2 (- 1022) < pow2 (e + 1)" by simp
  then have e_lo: "- 1022 \<le> e" using pow2_less_cancel [of "- 1022" "e + 1"] by simp
  from eb(1) hi have "pow2 e < pow2 1023" by simp
  then have e_hi: "e \<le> 1022" using pow2_less_cancel [of e 1023] by simp
  define ulp where "ulp = pow2 (e - 52)"
  have ulp: "0 < ulp" by (simp add: ulp_def pow2_pos)
  define m where "m = round_half_even (x / ulp)"
  define r where "r = of_int m * ulp"
  have mx: "max (ilog2 x) (- 1022) = e" using e_lo by (simp add: e_def)
  have ax: "\<bar>x\<bar> = x" using x by simp
  have rd: "round_double x = Finite r"
    unfolding round_double_def Let_def ax mx r_def m_def ulp_def
    using x e_hi by simp
  have "\<bar>of_int m - x / ulp\<bar> \<le> 1 / 2" unfolding m_def by (rule round_half_even_error)
  then have "\<bar>of_int m - x / ulp\<bar> * ulp \<le> 1 / 2 * ulp"
    using ulp by (simp add: mult_right_mono)
  moreover have "\<bar>of_int m - x / ulp\<bar> * ulp = \<bar>r - x\<bar>"
  proof -
    have "\<bar>of_int m - x / ulp\<bar> * ulp = \<bar>(of_int m - x / ulp) * ulp\<bar>"
      using ulp by (simp add: abs_mult)
    also have "(of_int m - x / ulp) * ulp = r - x"
      using ulp by (simp add: r_def left_diff_distrib)
    finally show ?thesis .
  qed
  ultimately have err: "\<bar>r - x\<bar> \<le> 1 / 2 * ulp" by simp
  have "1 / 2 * ulp = pow2 e * unit_roundoff"
  proof -
    have "pow2 (e - 52) = pow2 e * pow2 (- 52)" using pow2_add [of e "- 52"] by simp
    then show ?thesis by (simp add: ulp_def unit_roundoff_def pow2_def)
  qed
  also have "\<dots> \<le> x * unit_roundoff"
    using eb(1) by (simp add: mult_right_mono unit_roundoff_def)
  finally have "1 / 2 * ulp \<le> x * unit_roundoff" .
  with err have "\<bar>r - x\<bar> \<le> x * unit_roundoff" by simp
  then have "x * (1 - unit_roundoff) \<le> r \<and> r \<le> x * (1 + unit_roundoff)"
    by (simp add: abs_le_iff algebra_simps)
  with rd show ?thesis by blast
qed

lemma u_bounds: "0 < unit_roundoff" "unit_roundoff < 1"
  by (simp_all add: unit_roundoff_def)

lemma one_minus_u_power_ge:
  "1 - of_nat k * unit_roundoff \<le> (1 - unit_roundoff) ^ k"
proof (induction k)
  case 0
  then show ?case by simp
next
  case (Suc k)
  have "1 - of_nat (Suc k) * unit_roundoff \<le> (1 - of_nat k * unit_roundoff) * (1 - unit_roundoff)"
    using u_bounds by (simp add: algebra_simps)
  also have "\<dots> \<le> (1 - unit_roundoff) ^ k * (1 - unit_roundoff)"
    using Suc u_bounds by (simp add: mult_right_mono)
  finally show ?case by (simp add: mult.commute)
qed

lemma one_minus_u_power:
  "0 < (1 - unit_roundoff) ^ k" "(1 - unit_roundoff) ^ k \<le> 1"
  using u_bounds by (simp_all add: power_le_one)

lemma one_plus_u_power:
  "1 \<le> (1 + unit_roundoff) ^ k"
  using u_bounds by (simp add: one_le_power)

lemma u_powers_product: "(1 + unit_roundoff) ^ k * (1 - unit_roundoff) ^ k \<le> 1"
proof -
  have "(1 + unit_roundoff) ^ k * (1 - unit_roundoff) ^ k = ((1 + unit_roundoff) * (1 - unit_roundoff)) ^ k"
    by (simp add: power_mult_distrib)
  also have "(1 + unit_roundoff) * (1 - unit_roundoff) = 1 - unit_roundoff * unit_roundoff"
    by (simp add: algebra_simps)
  also have "(1 - unit_roundoff * unit_roundoff) ^ k \<le> 1"
    using u_bounds by (intro power_le_one) (simp_all add: mult_le_one less_imp_le)
  finally show ?thesis .
qed

lemma half_le_power:
  assumes "k \<le> 2 ^ 52"
  shows "1 / 2 \<le> (1 - unit_roundoff) ^ k"
proof -
  from assms have "(of_nat k :: rat) \<le> of_nat (2 ^ 52)" by (simp only: of_nat_le_iff)
  then have "(of_nat k :: rat) * unit_roundoff \<le> 1 / 2"
    by (simp add: unit_roundoff_def)
  then have "1 / 2 \<le> 1 - of_nat k * unit_roundoff" by simp
  also have "\<dots> \<le> (1 - unit_roundoff) ^ k" by (rule one_minus_u_power_ge)
  finally show ?thesis .
qed

lemma power_le_two:
  assumes "k \<le> 2 ^ 52"
  shows "(1 + unit_roundoff) ^ k \<le> 2"
proof -
  have h: "1 / 2 \<le> (1 - unit_roundoff) ^ k" using assms by (rule half_le_power)
  have "(1 + unit_roundoff) ^ k * (1 / 2) \<le> (1 + unit_roundoff) ^ k * (1 - unit_roundoff) ^ k"
    using h one_plus_u_power [of k] by (intro mult_left_mono) simp_all
  also have "\<dots> \<le> 1" by (rule u_powers_product)
  finally show ?thesis by simp
qed

lemma sum_list_range:
  assumes "\<forall>v \<in> set xs. v = 0 \<or> (lo \<le> v \<and> v \<le> hi)" and "0 < lo" and "lo \<le> (hi::rat)"
  shows "0 \<le> sum_list xs \<and> (sum_list xs = 0 \<or> lo \<le> sum_list xs) \<and> sum_list xs \<le> of_nat (length xs) * hi"
  using assms
proof (induction xs)
  case Nil
  then show ?case by simp
next
  case (Cons v xs)
  then have ih: "0 \<le> sum_list xs" "sum_list xs = 0 \<or> lo \<le> sum_list xs"
    "sum_list xs \<le> of_nat (length xs) * hi" by simp_all
  from Cons.prems have v: "v = 0 \<or> (lo \<le> v \<and> v \<le> hi)" by simp
  from Cons.prems have hi: "0 < hi" by simp
  from v hi have vh: "v \<le> hi" by auto
  from v Cons.prems(2) have v0: "0 \<le> v" by auto
  have a: "0 \<le> sum_list (v # xs)" using v0 ih(1) by simp
  have b: "sum_list (v # xs) = 0 \<or> lo \<le> sum_list (v # xs)"
  proof (cases "v = 0")
    case True
    with ih(2) show ?thesis by simp
  next
    case False
    with v have "lo \<le> v" by simp
    with ih(1) show ?thesis by simp
  qed
  have "v + sum_list xs \<le> hi + of_nat (length xs) * hi" using vh ih(3) by (rule add_mono)
  then have c: "sum_list (v # xs) \<le> of_nat (length (v # xs)) * hi" by (simp add: algebra_simps)
  from a b c show ?case by blast
qed

lemma fsum_bound:
  assumes lo: "pow2 (- 1021) \<le> lo" and lohi: "lo \<le> hi"
    and vals: "\<forall>v \<in> set xs. v = 0 \<or> (lo \<le> v \<and> v \<le> hi)"
    and len: "length xs \<le> 2 ^ 52"
    and big: "of_nat (length xs) * hi * 2 < pow2 1023"
  shows "\<exists>s. foldl (fadd round_double) (Finite 0) (map Finite xs) = Finite s \<and>
           sum_list xs * (1 - unit_roundoff) ^ length xs \<le> s \<and>
           s \<le> sum_list xs * (1 + unit_roundoff) ^ length xs"
  using vals len big
proof (induction xs rule: rev_induct)
  case Nil
  then show ?case by simp
next
  case (snoc x xs)
  let ?u = unit_roundoff
  let ?n = "length xs"
  from lo pow2_pos [of "- 1021"] have lo_pos: "0 < lo" by simp
  with lohi have hi_pos: "0 < hi" by simp
  from snoc.prems have vals': "\<forall>v \<in> set xs. v = 0 \<or> (lo \<le> v \<and> v \<le> hi)"
    and x: "x = 0 \<or> (lo \<le> x \<and> x \<le> hi)" and len': "?n \<le> 2 ^ 52" by simp_all
  have "of_nat ?n * hi * 2 \<le> of_nat (length (xs @ [x])) * hi * 2"
    using hi_pos by (simp add: mult_right_mono)
  with snoc.prems(3) have big': "of_nat ?n * hi * 2 < pow2 1023" by simp
  from snoc.IH [OF vals' len' big'] obtain s
    where fold: "foldl (fadd round_double) (Finite 0) (map Finite xs) = Finite s"
      and s_lo: "sum_list xs * (1 - ?u) ^ ?n \<le> s" and s_hi: "s \<le> sum_list xs * (1 + ?u) ^ ?n"
    by blast
  from sum_list_range [OF vals' lo_pos lohi]
  have S: "0 \<le> sum_list xs" "sum_list xs = 0 \<or> lo \<le> sum_list xs"
    "sum_list xs \<le> of_nat ?n * hi" by simp_all
  from x lo_pos have x0: "0 \<le> x" by auto
  have s0: "0 \<le> s"
  proof -
    have "0 \<le> sum_list xs * (1 - ?u) ^ ?n" using S(1) one_minus_u_power(1) [of ?n] by simp
    with s_lo show ?thesis by simp
  qed
  have step: "foldl (fadd round_double) (Finite 0) (map Finite (xs @ [x])) = round_double (s + x)"
    by (simp add: fold)
  have pm: "(1 - ?u) ^ ?n \<le> 1" "1 \<le> (1 + ?u) ^ ?n" "0 < (1 - ?u) ^ ?n"
    using one_minus_u_power [of ?n] one_plus_u_power [of ?n] by simp_all
  have up1: "s + x \<le> (sum_list xs + x) * (1 + ?u) ^ ?n"
  proof -
    have "x \<le> x * (1 + ?u) ^ ?n" using x0 pm(2) by (simp add: mult_le_cancel_left1)
    with s_hi show ?thesis by (simp add: algebra_simps)
  qed
  have lo1: "(sum_list xs + x) * (1 - ?u) ^ ?n \<le> s + x"
  proof -
    have "x * (1 - ?u) ^ ?n \<le> x" using x0 pm(1) by (simp add: mult_le_cancel_left2)
    with s_lo show ?thesis by (simp add: algebra_simps)
  qed
  show ?case
  proof (cases "s + x = 0")
    case True
    with s0 x0 have z: "s = 0" "x = 0" by simp_all
    from z(1) s_lo pm(3) S(1) have "sum_list xs = 0"
      by (metis mult_le_0_iff not_less order_antisym)
    moreover have "round_double 0 = Finite 0" by (simp add: round_double_def)
    with step True have "foldl (fadd round_double) (Finite 0) (map Finite (xs @ [x])) = Finite 0"
      by (simp only:)
    ultimately show ?thesis using z by (intro exI [of _ 0]) simp
  next
    case False
    with s0 x0 have pos: "0 < s + x" by simp
    have lower: "pow2 (- 1022) \<le> s + x"
    proof (cases "x = 0")
      case False
      with x have "lo \<le> x" by simp
      moreover have "pow2 (- 1022) \<le> pow2 (- 1021)" by (rule pow2_mono) simp
      ultimately show ?thesis using lo s0 by simp
    next
      case True
      with pos have "0 < s" by simp
      with s_hi have "0 < sum_list xs * (1 + ?u) ^ ?n" by simp
      with S(1) have "sum_list xs \<noteq> 0" by auto
      with S(2) have "lo \<le> sum_list xs" by simp
      then have "lo * (1 / 2) \<le> sum_list xs * (1 - ?u) ^ ?n"
        using half_le_power [OF len'] lo_pos by (intro mult_mono) simp_all
      with s_lo have "lo * (1 / 2) \<le> s" by simp
      moreover have "pow2 (- 1022) = pow2 (- 1021) * (1 / 2)"
        using pow2_add [of "- 1021" "- 1"] by (simp add: pow2_def)
      ultimately show ?thesis using lo True by simp
    qed
    have upper: "s + x < pow2 1023"
    proof -
      have "sum_list xs + x \<le> of_nat (length (xs @ [x])) * hi"
        using S(3) x hi_pos by (auto simp: algebra_simps)
      moreover have "(1 + ?u) ^ ?n \<le> 2" using len' by (rule power_le_two)
      moreover have "0 \<le> sum_list xs + x" using S(1) x0 by simp
      ultimately have "(sum_list xs + x) * (1 + ?u) ^ ?n \<le> of_nat (length (xs @ [x])) * hi * 2"
        using hi_pos pm(2) by (intro mult_mono) simp_all
      with up1 snoc.prems(3) show ?thesis by simp
    qed
    from round_double_error [OF lower upper] obtain r
      where r: "round_double (s + x) = Finite r"
        and r_lo: "(s + x) * (1 - ?u) \<le> r" and r_hi: "r \<le> (s + x) * (1 + ?u)" by blast
    have "r \<le> (sum_list xs + x) * (1 + ?u) ^ ?n * (1 + ?u)"
    proof -
      have "(s + x) * (1 + ?u) \<le> (sum_list xs + x) * (1 + ?u) ^ ?n * (1 + ?u)"
        using up1 u_bounds by (intro mult_right_mono) simp_all
      with r_hi show ?thesis by simp
    qed
    moreover have "(sum_list xs + x) * (1 - ?u) ^ ?n * (1 - ?u) \<le> r"
    proof -
      have "(sum_list xs + x) * (1 - ?u) ^ ?n * (1 - ?u) \<le> (s + x) * (1 - ?u)"
        using lo1 u_bounds by (intro mult_right_mono) simp_all
      with r_lo show ?thesis by simp
    qed
    ultimately show ?thesis using step r by (simp add: mult_ac)
  qed
qed

lemma round_double_zero: "round_double 0 = Finite 0"
  by (simp add: round_double_def)

lemma u_half: "1 / 2 \<le> 1 - unit_roundoff" "1 + unit_roundoff \<le> 2" "0 \<le> 1 + unit_roundoff"
  by (simp_all add: unit_roundoff_def)

lemma pct_bound:
  assumes t: "pow2 (- 401) \<le> t" "t \<le> pow2 441"
    and c: "c = 0 \<or> (pow2 (- 400) \<le> c \<and> c \<le> pow2 400)"
  shows "\<exists>q p. fdiv round_double (Finite c) (Finite t) = Inr (Finite q) \<and>
           fmul round_double (Finite q) (Finite 100) = Finite p \<and>
           100 * (c / t) * (1 - unit_roundoff)\<^sup>2 \<le> p \<and>
           p \<le> 100 * (c / t) * (1 + unit_roundoff)\<^sup>2 \<and>
           (p = 0 \<or> (pow2 (- 850) \<le> p \<and> p \<le> pow2 810))"
proof -
  let ?u = unit_roundoff
  from t(1) pow2_pos [of "- 401"] have tpos: "0 < t" by simp
  then have div: "fdiv round_double (Finite c) (Finite t) = Inr (round_double (c / t))" by simp
  show ?thesis
  proof (cases "c = 0")
    case True
    then show ?thesis using div by (simp add: round_double_zero)
  next
    case False
    with c have cr: "pow2 (- 400) \<le> c" "c \<le> pow2 400" by simp_all
    define y where "y = c / t"
    have y_lo: "pow2 (- 841) \<le> y"
    proof -
      have "pow2 (- 841) * t \<le> pow2 (- 841) * pow2 441"
        using t(2) pow2_pos [of "- 841"] by (intro mult_left_mono) simp_all
      also have "\<dots> = pow2 (- 400)" using pow2_add [of "- 841" 441] by simp
      finally have "pow2 (- 841) * t \<le> c" using cr(1) by simp
      then show ?thesis unfolding y_def using tpos by (simp add: pos_le_divide_eq)
    qed
    have y_hi: "y \<le> pow2 801"
    proof -
      have "pow2 400 = pow2 801 * pow2 (- 401)" using pow2_add [of 801 "- 401"] by simp
      also have "\<dots> \<le> pow2 801 * t"
        using t(1) pow2_pos [of 801] by (intro mult_left_mono) simp_all
      finally have "c \<le> pow2 801 * t" using cr(2) by simp
      then show ?thesis unfolding y_def using tpos by (simp add: pos_divide_le_eq)
    qed
    have ypos: "0 < y" using y_lo pow2_pos [of "- 841"] by simp
    have "pow2 (- 1022) \<le> pow2 (- 841)" "pow2 801 < pow2 1023"
      by (simp_all add: pow2_powi)
    with y_lo y_hi have "pow2 (- 1022) \<le> y" "y < pow2 1023" by simp_all
    from round_double_error [OF this] obtain q where q: "round_double y = Finite q"
      and q_lo: "y * (1 - ?u) \<le> q" and q_hi: "q \<le> y * (1 + ?u)" by blast
    have q_lo2: "pow2 (- 842) \<le> q"
    proof -
      have "pow2 (- 842) = pow2 (- 841) * (1 / 2)" using pow2_add [of "- 841" "- 1"] by (simp add: pow2_def)
      also have "\<dots> \<le> y * (1 - ?u)" using y_lo u_half(1) pow2_pos [of "- 841"] by (intro mult_mono) simp_all
      finally show ?thesis using q_lo by simp
    qed
    have q_hi2: "q \<le> pow2 802"
    proof -
      have "y * (1 + ?u) \<le> pow2 801 * 2" using y_hi u_half(2,3) ypos by (intro mult_mono) simp_all
      also have "\<dots> = pow2 802" using pow2_add [of 801 1] by (simp add: pow2_def)
      finally show ?thesis using q_hi by simp
    qed
    have qpos: "0 < q" using q_lo2 pow2_pos [of "- 842"] by simp
    define z where "z = q * 100"
    have z_lo: "pow2 (- 842) \<le> z" unfolding z_def using q_lo2 qpos by simp
    have z_hi: "z \<le> pow2 809"
    proof -
      have "q * 100 \<le> pow2 802 * 128" using q_hi2 qpos by (intro mult_mono) simp_all
      also have "\<dots> = pow2 809" using pow2_add [of 802 7] by (simp add: pow2_def)
      finally show ?thesis by (simp add: z_def)
    qed
    have zpos: "0 < z" using z_lo pow2_pos [of "- 842"] by simp
    have "pow2 (- 1022) \<le> pow2 (- 842)" "pow2 809 < pow2 1023"
      by (simp_all add: pow2_powi)
    with z_lo z_hi have "pow2 (- 1022) \<le> z" "z < pow2 1023" by simp_all
    from round_double_error [OF this] obtain p where p: "round_double z = Finite p"
      and p_lo: "z * (1 - ?u) \<le> p" and p_hi: "p \<le> z * (1 + ?u)" by blast
    have p_lo2: "pow2 (- 850) \<le> p"
    proof -
      have "pow2 (- 850) \<le> pow2 (- 843)" by (rule pow2_mono) simp
      also have "pow2 (- 843) = pow2 (- 842) * (1 / 2)" using pow2_add [of "- 842" "- 1"] by (simp add: pow2_def)
      also have "\<dots> \<le> z * (1 - ?u)" using z_lo u_half(1) pow2_pos [of "- 842"] by (intro mult_mono) simp_all
      finally show ?thesis using p_lo by simp
    qed
    have p_hi2: "p \<le> pow2 810"
    proof -
      have "z * (1 + ?u) \<le> pow2 809 * 2" using z_hi u_half(2,3) zpos by (intro mult_mono) simp_all
      also have "\<dots> = pow2 810" using pow2_add [of 809 1] by (simp add: pow2_def)
      finally show ?thesis using p_hi by simp
    qed
    have up: "p \<le> 100 * y * (1 + ?u)\<^sup>2"
    proof -
      have "z * (1 + ?u) \<le> (y * (1 + ?u) * 100) * (1 + ?u)"
        unfolding z_def using q_hi u_bounds by (intro mult_right_mono) simp_all
      with p_hi show ?thesis by (simp add: power2_eq_square mult_ac)
    qed
    have low: "100 * y * (1 - ?u)\<^sup>2 \<le> p"
    proof -
      have "(y * (1 - ?u) * 100) * (1 - ?u) \<le> z * (1 - ?u)"
        unfolding z_def using q_lo u_bounds by (intro mult_right_mono) simp_all
      with p_lo show ?thesis by (simp add: power2_eq_square mult_ac)
    qed
    have "fdiv round_double (Finite c) (Finite t) = Inr (Finite q)"
      using div q by (simp only: y_def)
    moreover have "fmul round_double (Finite q) (Finite 100) = Finite p"
      using p by (simp add: z_def)
    ultimately show ?thesis using low up p_lo2 p_hi2 unfolding y_def by blast
  qed
qed

lemma tolerance_arith:
  fixes T t P s :: rat
  assumes T: "0 < T"
    and t_lo: "T * (1 - unit_roundoff) ^ n \<le> t" and t_hi: "t \<le> T * (1 + unit_roundoff) ^ n"
    and P_lo: "100 * (T / t) * (1 - unit_roundoff)\<^sup>2 \<le> P"
    and P_hi: "P \<le> 100 * (T / t) * (1 + unit_roundoff)\<^sup>2"
    and s_lo: "P * (1 - unit_roundoff) ^ n \<le> s" and s_hi: "s \<le> P * (1 + unit_roundoff) ^ n"
    and n: "n \<le> 2 ^ 40"
  shows "\<bar>s - 100\<bar> \<le> 400 * (of_nat n + 1) * unit_roundoff"
proof -
  let ?A = "1 - unit_roundoff" and ?B = "1 + unit_roundoff"
  let ?K = "2 * n + 2"
  define x where "x = of_nat ?K * unit_roundoff"
  have An: "0 < ?A ^ k" "?A ^ k \<le> 1" for k using one_minus_u_power [of k] by simp_all
  have Bn: "1 \<le> ?B ^ k" for k by (rule one_plus_u_power)
  have AB: "?B ^ k * ?A ^ k \<le> 1" for k by (rule u_powers_product)
  from T An(1) [of n] have "0 < T * ?A ^ n" by simp
  with t_lo have tpos: "0 < t" by simp
  define ratio where "ratio = T / t"
  have rpos: "0 < ratio" unfolding ratio_def using T tpos by simp
  have r_hi: "ratio * ?A ^ n \<le> 1"
  proof -
    have "ratio * ?A ^ n = (T * ?A ^ n) / t" by (simp add: ratio_def)
    also have "\<dots> \<le> 1" using t_lo tpos by simp
    finally show ?thesis .
  qed
  have r_lo: "?A ^ n \<le> ratio"
  proof -
    have "t * ?A ^ n \<le> T * ?B ^ n * ?A ^ n"
      using t_hi An(1) [of n] by (intro mult_right_mono) simp_all
    also have "\<dots> = T * (?B ^ n * ?A ^ n)" by simp
    also have "\<dots> \<le> T * 1" using AB [of n] T by (intro mult_left_mono) simp_all
    finally have "t * ?A ^ n \<le> T" by simp
    then show ?thesis unfolding ratio_def using tpos by (simp add: pos_le_divide_eq mult.commute)
  qed
  have Ppos: "0 \<le> P"
  proof -
    have "0 \<le> 100 * ratio * ?A\<^sup>2" using rpos by simp
    with P_lo show ?thesis by (simp add: ratio_def)
  qed
  have spos: "0 \<le> s"
  proof -
    have "0 \<le> P * ?A ^ n" using Ppos An(1) [of n] by simp
    with s_lo show ?thesis by simp
  qed
  have xr: "0 \<le> x" "x \<le> 1 / 2"
  proof -
    show "0 \<le> x" unfolding x_def using u_bounds by simp
    have "?K \<le> 2 ^ 52" using n by simp
    then have "(of_nat ?K :: rat) \<le> of_nat (2 ^ 52)" by (simp only: of_nat_le_iff)
    then show "x \<le> 1 / 2" unfolding x_def by (simp add: unit_roundoff_def)
  qed
  have AK: "1 - x \<le> ?A ^ ?K" unfolding x_def by (rule one_minus_u_power_ge)
  \<comment> \<open>the upper bound\<close>
  have "s * ?A ^ ?K \<le> 100"
  proof -
    have "s * ?A ^ ?K \<le> (P * ?B ^ n) * ?A ^ ?K"
      using s_hi An(1) [of ?K] by (intro mult_right_mono) simp_all
    also have "\<dots> \<le> (100 * ratio * ?B\<^sup>2 * ?B ^ n) * ?A ^ ?K"
      using P_hi An(1) [of ?K] Bn [of n] by (intro mult_right_mono) (simp_all add: ratio_def)
    also have "\<dots> = 100 * (ratio * ?A ^ n) * (?B ^ (n + 2) * ?A ^ (n + 2))"
    proof -
      have "?A ^ n * ?A ^ (n + 2) = ?A ^ (n + (n + 2))" by (simp only: power_add)
      also have "n + (n + 2) = ?K" by simp
      finally have "?A ^ n * ?A ^ (n + 2) = ?A ^ ?K" .
      then have k: "?A ^ ?K = ?A ^ n * ?A ^ (n + 2)" by (rule sym)
      have b: "?B\<^sup>2 * ?B ^ n = ?B ^ (n + 2)"
        using power_add [of ?B 2 n] by (simp only: add.commute [of 2 n])
      have "(100 * ratio * ?B\<^sup>2 * ?B ^ n) * ?A ^ ?K = 100 * ratio * (?B\<^sup>2 * ?B ^ n) * ?A ^ ?K"
        by (simp only: mult.assoc)
      also have "\<dots> = 100 * ratio * ?B ^ (n + 2) * (?A ^ n * ?A ^ (n + 2))"
        by (simp only: k b)
      also have "\<dots> = 100 * (ratio * ?A ^ n) * (?B ^ (n + 2) * ?A ^ (n + 2))"
        by (simp only: mult_ac)
      finally show ?thesis .
    qed
    also have "\<dots> \<le> 100 * 1 * 1"
      using r_hi AB [of "n + 2"] rpos An(1) [of n] An(1) [of "n + 2"] Bn [of "n + 2"]
      by (intro mult_mono) simp_all
    finally show ?thesis by simp
  qed
  moreover have "s * (1 - x) \<le> s * ?A ^ ?K" using AK spos by (intro mult_left_mono)
  ultimately have "s * (1 - x) \<le> 100" by simp
  moreover have "100 \<le> (100 + 200 * x) * (1 - x)"
  proof -
    have "(100 + 200 * x) * (1 - x) = 100 + 100 * x * (1 - 2 * x)" by (simp add: algebra_simps)
    moreover have "0 \<le> 100 * x * (1 - 2 * x)" using xr by simp
    ultimately show ?thesis by simp
  qed
  ultimately have "s * (1 - x) \<le> (100 + 200 * x) * (1 - x)" by simp
  then have up: "s \<le> 100 + 200 * x" using xr by simp
  \<comment> \<open>the lower bound\<close>
  have "100 * ?A ^ ?K \<le> s"
  proof -
    have "?A ^ n * ?A\<^sup>2 * ?A ^ n = ?A ^ (n + 2 + n)"
      by (simp only: power_add)
    also have "n + 2 + n = ?K" by simp
    finally have "?A ^ n * ?A\<^sup>2 * ?A ^ n = ?A ^ ?K" .
    then have "?A ^ ?K = ?A ^ n * ?A\<^sup>2 * ?A ^ n" by (rule sym)
    then have "100 * ?A ^ ?K = 100 * ?A ^ n * ?A\<^sup>2 * ?A ^ n"
      by (simp only: mult.assoc)
    also have "\<dots> \<le> 100 * ratio * ?A\<^sup>2 * ?A ^ n"
      using r_lo An(1) [of n] An(1) [of 2] by (intro mult_right_mono mult_left_mono) simp_all
    also have "\<dots> \<le> P * ?A ^ n"
      using P_lo An(1) [of n] by (intro mult_right_mono) (simp_all add: ratio_def)
    also have "\<dots> \<le> s" by (rule s_lo)
    finally show ?thesis .
  qed
  moreover have "100 * (1 - x) \<le> 100 * ?A ^ ?K" using AK by simp
  ultimately have low: "100 - 100 * x \<le> s" by (simp add: algebra_simps)
  have "200 * x = 400 * (of_nat n + 1) * unit_roundoff" by (simp add: x_def algebra_simps)
  with up low xr(1) show ?thesis by (simp add: abs_le_iff)
qed


lemma sum_list_scaled_le:
  fixes a :: rat
  assumes "length ps = length cs" and "\<forall>i<length cs. a * cs ! i \<le> ps ! i"
  shows "a * sum_list cs \<le> sum_list ps"
  using assms
proof (induction ps cs rule: list_induct2)
  case Nil
  then show ?case by simp
next
  case (Cons p ps c cs)
  from Cons.prems have "a * c \<le> p" by auto
  moreover from Cons.prems have "\<forall>i<length cs. a * cs ! i \<le> ps ! i" by auto
  then have "a * sum_list cs \<le> sum_list ps" by (rule Cons.IH)
  ultimately show ?case by (simp add: distrib_left)
qed

lemma sum_list_scaled_ge:
  fixes a :: rat
  assumes "length ps = length cs" and "\<forall>i<length cs. ps ! i \<le> a * cs ! i"
  shows "sum_list ps \<le> a * sum_list cs"
  using assms
proof (induction ps cs rule: list_induct2)
  case Nil
  then show ?case by simp
next
  case (Cons p ps c cs)
  from Cons.prems have "p \<le> a * c" by auto
  moreover from Cons.prems have "\<forall>i<length cs. ps ! i \<le> a * cs ! i" by auto
  then have "sum_list ps \<le> a * sum_list cs" by (rule Cons.IH)
  ultimately show ?case by (simp add: distrib_left)
qed

lemma ilog2_eq:
  assumes "0 < x" and "pow2 e \<le> x" and "x < pow2 (e + 1)"
  shows "ilog2 x = e"
proof -
  from ilog2_bounds [OF assms(1)] have b: "pow2 (ilog2 x) \<le> x" "x < pow2 (ilog2 x + 1)" by simp_all
  from assms(2) b(2) have "pow2 e < pow2 (ilog2 x + 1)" by simp
  then have "e < ilog2 x + 1" by (rule pow2_less_cancel)
  moreover from b(1) assms(3) have "pow2 (ilog2 x) < pow2 (e + 1)" by simp
  then have "ilog2 x < e + 1" by (rule pow2_less_cancel)
  ultimately show ?thesis by simp
qed

lemma round_half_even_eq:
  assumes "\<bar>x - of_int m\<bar> < 1 / 2"
  shows "round_half_even x = m"
proof -
  from assms have "of_int m - 1 / 2 < x" "x < of_int m + 1 / 2" by linarith+
  then have "\<lfloor>x\<rfloor> = m \<or> \<lfloor>x\<rfloor> = m - 1" by linarith
  then show ?thesis
  proof
    assume f: "\<lfloor>x\<rfloor> = m"
    with \<open>x < of_int m + 1 / 2\<close> show ?thesis by (simp add: round_half_even_def Let_def)
  next
    assume f: "\<lfloor>x\<rfloor> = m - 1"
    with \<open>of_int m - 1 / 2 < x\<close> show ?thesis by (simp add: round_half_even_def Let_def)
  qed
qed

lemma round_double_eq:
  assumes "0 < x" and "pow2 e \<le> x" and "x < pow2 (e + 1)" and "- 1022 \<le> e" and "e \<le> 1023"
    and "\<bar>x / pow2 (e - 52) - of_int m\<bar> < 1 / 2" and "m < 2 ^ 53"
  shows "round_double x = Finite (of_int m * pow2 (e - 52))"
proof -
  from assms(1) have ax: "\<bar>x\<bar> = x" and nz: "x \<noteq> 0" and nn: "\<not> x < 0" by simp_all
  from ilog2_eq [OF assms(1-3)] assms(4) have mx: "max (ilog2 x) (- 1022) = e" by simp
  from round_half_even_eq [OF assms(6)] have m: "round_half_even (x / pow2 (e - 52)) = m" .
  from assms(5,7) have c: "\<not> (1024 \<le> e \<or> (e = 1023 \<and> 2 ^ 53 \<le> m))" by simp
  show ?thesis unfolding round_double_def by (simp only: nz ax mx m c nn Let_def if_False)
qed

lemma round_double_overflow:
  assumes "pow2 1024 \<le> x"
  shows "round_double x = PInf"
proof -
  from assms pow2_pos [of 1024] have pos: "0 < x" by simp
  then have ax: "\<bar>x\<bar> = x" and nz: "x \<noteq> 0" and nn: "\<not> x < 0" by simp_all
  from ilog2_bounds [OF pos] have "x < pow2 (ilog2 x + 1)" by simp
  with assms have "pow2 1024 < pow2 (ilog2 x + 1)" by simp
  then have "1024 < ilog2 x + 1" by (rule pow2_less_cancel)
  then have c: "1024 \<le> max (ilog2 x) (- 1022)" by simp
  show ?thesis unfolding round_double_def by (simp only: nz ax c nn Let_def if_False if_True simp_thms)
qed

subsection \<open>The sum is 100 up to rounding\<close>

text \<open>
  Claim C1, as amended. Let the extraction succeed under binary64 arithmetic with a non-empty
  list, on a table with at least as many name elements as capitalization elements, where
  every capitalization is finite and either 0 or between \<open>2\<^sup>-\<^sup>4\<^sup>0\<^sup>0\<close> and \<open>2\<^sup>4\<^sup>0\<^sup>0\<close>, and
  where the list has at most \<open>2\<^sup>4\<^sup>0\<close> records. Then the market percentages, added up in list
  order in binary64, give a finite sum \<open>s\<close> with \<open>\<bar>s - 100\<bar> \<le> 400 (n + 1) / 2\<^sup>5\<^sup>3\<close>, where \<open>n\<close> is
  the number of records. The range keeps every intermediate result a normal number (no sum
  overflows, no quotient underflows), so that each of the \<open>3 n\<close> rounded operations has a
  relative error of at most \<open>2\<^sup>-\<^sup>5\<^sup>3\<close>; all arithmetic in the statement is that of
  \<open>round_double\<close>.
\<close>

theorem percentages_sum_tolerance:
  assumes tbody: "find ''tbody'' (parser html_text) = Some table"
    and paired: "length (capitalization_tags table) \<le> length (coin_name_tags table)"
    and ok: "get_content round_double parser html_text = Inr coins_info"
    and nonempty: "coins_info \<noteq> []"
    and range: "\<forall>r \<in> set coins_info. \<exists>c. fst (snd r) = Finite c \<and> (c = 0 \<or> (1 / 2 ^ 400 \<le> c \<and> c \<le> 2 ^ 400))"
    and count: "length coins_info \<le> 2 ^ 40"
  shows "\<exists>s. sum_percentages round_double coins_info = Finite s \<and>
           \<bar>s - 100\<bar> \<le> 400 * (of_nat (length coins_info) + 1) / 2 ^ 53"
proof -
  let ?ns = "coin_name_tags table" and ?cs = "capitalization_tags table"
  let ?u = unit_roundoff
  define n where "n = length coins_info"
  from get_content_Inr [of parser html_text table round_double coins_info, OF tbody ok] obtain vs
    where parsed: "map (\<lambda>t. float_of_str round_double (cap_str t)) ?cs = map Inr vs"
      and all: "list_all2 (coin_record round_double (foldl (fadd round_double) (Finite 0) vs))
                  (zip ?ns ?cs) coins_info"
    by blast
  let ?tot = "foldl (fadd round_double) (Finite 0) vs"
  from parsed have lvs: "length vs = length ?cs" by (metis length_map)
  from all paired have len: "length coins_info = length ?cs"
    by (auto dest: list_all2_lengthD)
  have rec: "\<exists>q. fdiv round_double (vs ! i) ?tot = Inr q \<and>
      coins_info ! i = (strip (text_of (?ns ! i)), vs ! i, fmul round_double q (Finite 100))"
    if "i < n" for i
  proof -
    from that len paired have i: "i < length ?ns" "i < length ?cs" by (simp_all add: n_def)
    then have "i < length (zip ?ns ?cs)" by simp
    with all have "coin_record round_double ?tot (zip ?ns ?cs ! i) (coins_info ! i)"
      by (rule list_all2_nthD)
    from coin_record_nth [OF parsed i this] show ?thesis .
  qed
  have fin: "\<exists>c. vs ! i = Finite c \<and> (c = 0 \<or> (pow2 (- 400) \<le> c \<and> c \<le> pow2 400))"
    if "i < n" for i
  proof -
    from that have "coins_info ! i \<in> set coins_info" by (simp add: n_def)
    with range obtain c where "fst (snd (coins_info ! i)) = Finite c"
      and "c = 0 \<or> (1 / 2 ^ 400 \<le> c \<and> c \<le> 2 ^ 400)" by blast
    moreover from rec [OF that] have "fst (snd (coins_info ! i)) = vs ! i" by auto
    ultimately show ?thesis by (auto simp: pow2_def)
  qed
  have "\<forall>v \<in> set vs. \<exists>c. v = Finite c"
  proof
    fix v assume "v \<in> set vs"
    then obtain i where "i < length vs" "v = vs ! i" by (auto simp: in_set_conv_nth)
    with lvs len fin [of i] show "\<exists>c. v = Finite c" by (auto simp: n_def)
  qed
  then obtain cs where cs: "vs = map Finite cs" using all_Finite_map by blast
  have lcs: "length cs = n" using cs lvs len by (simp add: n_def)
  have crange: "\<forall>c \<in> set cs. c = 0 \<or> (pow2 (- 400) \<le> c \<and> c \<le> pow2 400)"
  proof
    fix c assume "c \<in> set cs"
    then obtain i where i: "i < length cs" "c = cs ! i" by (auto simp: in_set_conv_nth)
    with lcs fin [of i] cs show "c = 0 \<or> (pow2 (- 400) \<le> c \<and> c \<le> pow2 400)" by auto
  qed
  have n52: "n \<le> 2 ^ 52"
  proof -
    have "(2::nat) ^ 40 \<le> 2 ^ 52" by simp
    with count show ?thesis unfolding n_def by (rule order_trans)
  qed
  have npow: "(of_nat n :: rat) \<le> pow2 40"
  proof -
    from count have "(of_nat n :: rat) \<le> of_nat (2 ^ 40)" unfolding n_def by (simp only: of_nat_le_iff)
    then show ?thesis by (simp add: pow2_def)
  qed
  have big1: "of_nat (length cs) * pow2 400 * 2 < pow2 1023"
  proof -
    have "of_nat (length cs) * pow2 400 * 2 \<le> pow2 40 * pow2 400 * 2"
      using npow pow2_pos [of 400] lcs by (simp add: mult_right_mono)
    also have "\<dots> = pow2 441" using pow2_add [of 40 400] pow2_add [of 440 1] by (simp add: pow2_def)
    also have "\<dots> < pow2 1023" by (simp add: pow2_powi)
    finally show ?thesis .
  qed
  have l1: "pow2 (- 1021) \<le> pow2 (- 400)" "pow2 (- 400) \<le> pow2 400"
    by (rule pow2_mono, simp)+
  from fsum_bound [OF l1 crange _ big1] n52 lcs obtain t
    where t: "foldl (fadd round_double) (Finite 0) (map Finite cs) = Finite t"
      and t_lo: "sum_list cs * (1 - ?u) ^ n \<le> t" and t_hi: "t \<le> sum_list cs * (1 + ?u) ^ n"
    by auto
  have tot: "?tot = Finite t" using t cs by simp
  from sum_list_range [OF crange pow2_pos l1(2)]
  have T: "0 \<le> sum_list cs" "sum_list cs = 0 \<or> pow2 (- 400) \<le> sum_list cs"
    "sum_list cs \<le> of_nat n * pow2 400" by (simp_all add: lcs)
  from nonempty have n0: "0 < n" by (simp add: n_def)
  from rec [OF n0] obtain q0 where d0: "fdiv round_double (vs ! 0) ?tot = Inr q0" by blast
  from fin [OF n0] obtain c0 where v0: "vs ! 0 = Finite c0" by blast
  have tnz: "t \<noteq> 0"
  proof
    assume "t = 0"
    with d0 v0 tot show False by simp
  qed
  have t0: "0 \<le> t"
  proof -
    have "0 \<le> sum_list cs * (1 - ?u) ^ n" using T(1) one_minus_u_power(1) [of n] by simp
    with t_lo show ?thesis by simp
  qed
  with tnz have tpos: "0 < t" by simp
  have Tpos: "0 < sum_list cs"
  proof (rule ccontr)
    assume "\<not> 0 < sum_list cs"
    with T(1) have "sum_list cs = 0" by simp
    with t_hi tpos show False by simp
  qed
  with T(2) have Tlo: "pow2 (- 400) \<le> sum_list cs" by simp
  have t401: "pow2 (- 401) \<le> t"
  proof -
    have "pow2 (- 401) = pow2 (- 400) * (1 / 2)" using pow2_add [of "- 400" "- 1"] by (simp add: pow2_def)
    also have "\<dots> \<le> sum_list cs * (1 - ?u) ^ n"
      using Tlo half_le_power [OF n52] pow2_pos [of "- 400"] by (intro mult_mono) simp_all
    finally show ?thesis using t_lo by simp
  qed
  have t441: "t \<le> pow2 441"
  proof -
    have "sum_list cs * (1 + ?u) ^ n \<le> (pow2 40 * pow2 400) * 2"
    proof (intro mult_mono)
      have "of_nat n * pow2 400 \<le> pow2 40 * pow2 400"
        using npow pow2_pos [of 400] by (simp add: mult_right_mono)
      with T(3) show "sum_list cs \<le> pow2 40 * pow2 400" by simp
      show "(1 + ?u) ^ n \<le> 2" using n52 by (rule power_le_two)
      show "0 \<le> pow2 40 * pow2 400" using pow2_pos [of 40] pow2_pos [of 400] by simp
      show "0 \<le> (1 + ?u) ^ n" using one_plus_u_power [of n] by simp
    qed
    also have "\<dots> = pow2 441" using pow2_add [of 40 400] pow2_add [of 440 1] by (simp add: pow2_def)
    finally show ?thesis using t_hi by simp
  qed
  have "\<forall>i<n. \<exists>p. snd (snd (coins_info ! i)) = Finite p \<and>
      100 * (cs ! i / t) * (1 - ?u)\<^sup>2 \<le> p \<and> p \<le> 100 * (cs ! i / t) * (1 + ?u)\<^sup>2 \<and>
      (p = 0 \<or> (pow2 (- 850) \<le> p \<and> p \<le> pow2 810))"
  proof (intro allI impI)
    fix i assume i: "i < n"
    with lcs have "cs ! i \<in> set cs" by simp
    with crange have ci: "cs ! i = 0 \<or> (pow2 (- 400) \<le> cs ! i \<and> cs ! i \<le> pow2 400)" by blast
    from pct_bound [OF t401 t441 ci] obtain q p
      where q: "fdiv round_double (Finite (cs ! i)) (Finite t) = Inr (Finite q)"
        and p: "fmul round_double (Finite q) (Finite 100) = Finite p"
        and b: "100 * (cs ! i / t) * (1 - ?u)\<^sup>2 \<le> p" "p \<le> 100 * (cs ! i / t) * (1 + ?u)\<^sup>2"
          "p = 0 \<or> (pow2 (- 850) \<le> p \<and> p \<le> pow2 810)" by blast
    from i lcs cs have v: "vs ! i = Finite (cs ! i)" by simp
    from rec [OF i] obtain q' where "fdiv round_double (vs ! i) ?tot = Inr q'"
      and r: "coins_info ! i = (strip (text_of (?ns ! i)), vs ! i, fmul round_double q' (Finite 100))"
      by blast
    with v tot q have "q' = Finite q" by (simp del: fdiv.simps)
    with r p have "snd (snd (coins_info ! i)) = Finite p" by (simp del: fmul.simps)
    with b show "\<exists>p. snd (snd (coins_info ! i)) = Finite p \<and>
      100 * (cs ! i / t) * (1 - ?u)\<^sup>2 \<le> p \<and> p \<le> 100 * (cs ! i / t) * (1 + ?u)\<^sup>2 \<and>
      (p = 0 \<or> (pow2 (- 850) \<le> p \<and> p \<le> pow2 810))" by blast
  qed
  then obtain ps where lps: "length ps = n"
    and ps: "\<forall>i<n. snd (snd (coins_info ! i)) = Finite (ps ! i) \<and>
      100 * (cs ! i / t) * (1 - ?u)\<^sup>2 \<le> ps ! i \<and> ps ! i \<le> 100 * (cs ! i / t) * (1 + ?u)\<^sup>2 \<and>
      (ps ! i = 0 \<or> (pow2 (- 850) \<le> ps ! i \<and> ps ! i \<le> pow2 810))"
    unfolding Skolem_list_nth by blast
  have pcts: "map (snd \<circ> snd) coins_info = map Finite ps"
    by (rule nth_equalityI) (use lps ps in \<open>simp_all add: n_def\<close>)
  have prange: "\<forall>p \<in> set ps. p = 0 \<or> (pow2 (- 850) \<le> p \<and> p \<le> pow2 810)"
  proof
    fix p assume "p \<in> set ps"
    then obtain i where "i < length ps" "p = ps ! i" by (auto simp: in_set_conv_nth)
    with lps ps show "p = 0 \<or> (pow2 (- 850) \<le> p \<and> p \<le> pow2 810)" by auto
  qed
  have big2: "of_nat (length ps) * pow2 810 * 2 < pow2 1023"
  proof -
    have "of_nat (length ps) * pow2 810 * 2 \<le> pow2 40 * pow2 810 * 2"
      using npow pow2_pos [of 810] lps by (simp add: mult_right_mono)
    also have "\<dots> = pow2 851" using pow2_add [of 40 810] pow2_add [of 850 1] by (simp add: pow2_def)
    also have "\<dots> < pow2 1023" by (simp add: pow2_powi)
    finally show ?thesis .
  qed
  have l2: "pow2 (- 1021) \<le> pow2 (- 850)" "pow2 (- 850) \<le> pow2 810"
    by (rule pow2_mono, simp)+
  from fsum_bound [OF l2 prange _ big2] n52 lps obtain s
    where s: "foldl (fadd round_double) (Finite 0) (map Finite ps) = Finite s"
      and s_lo: "sum_list ps * (1 - ?u) ^ n \<le> s" and s_hi: "s \<le> sum_list ps * (1 + ?u) ^ n"
    by auto
  have sp: "sum_percentages round_double coins_info = Finite s"
    by (simp only: sum_percentages_def pcts s)
  have P_lo: "100 * (sum_list cs / t) * (1 - ?u)\<^sup>2 \<le> sum_list ps"
  proof -
    have "(100 * (1 - ?u)\<^sup>2 / t) * sum_list cs \<le> sum_list ps"
    proof (rule sum_list_scaled_le)
      show "length ps = length cs" using lps lcs by simp
      show "\<forall>i<length cs. (100 * (1 - ?u)\<^sup>2 / t) * cs ! i \<le> ps ! i"
        using ps lcs by (simp add: mult_ac)
    qed
    then show ?thesis by (simp add: mult_ac)
  qed
  have P_hi: "sum_list ps \<le> 100 * (sum_list cs / t) * (1 + ?u)\<^sup>2"
  proof -
    have "sum_list ps \<le> (100 * (1 + ?u)\<^sup>2 / t) * sum_list cs"
    proof (rule sum_list_scaled_ge)
      show "length ps = length cs" using lps lcs by simp
      show "\<forall>i<length cs. ps ! i \<le> (100 * (1 + ?u)\<^sup>2 / t) * cs ! i"
        using ps lcs by (simp add: mult_ac)
    qed
    then show ?thesis by (simp add: mult_ac)
  qed
  from tolerance_arith [OF Tpos t_lo t_hi P_lo P_hi s_lo s_hi] count
  have "\<bar>s - 100\<bar> \<le> 400 * (of_nat n + 1) * ?u" by (simp add: n_def)
  then have "\<bar>s - 100\<bar> \<le> 400 * (of_nat (length coins_info) + 1) / 2 ^ 53"
    by (simp add: n_def unit_roundoff_def)
  with sp show ?thesis by blast
qed

lemma find_thirds: "find ''tbody'' (parser_ex markup_thirds) = Some tbody_thirds"
  by code_simp

lemma tags_thirds:
  "length (capitalization_tags tbody_thirds) \<le> length (coin_name_tags tbody_thirds)"
  by code_simp

lemma sum_caps_thirds: "sum_caps round_double (capitalization_tags tbody_thirds) (Finite 0) = Inr (Finite 3)"
  by code_simp

lemma build_info_thirds:
  "build_info round_double (Finite 3) (zip (coin_name_tags tbody_thirds) (capitalization_tags tbody_thirds)) []
     = Inr [(''Bitcoin'', Finite 1, Finite (2345624805922133 / 2 ^ 46)),
            (''Ethereum'', Finite 1, Finite (2345624805922133 / 2 ^ 46)),
            (''Tether'', Finite 1, Finite (2345624805922133 / 2 ^ 46))]"
  by code_simp

lemma get_content_thirds:
  "get_content round_double parser_ex markup_thirds
     = Inr [(''Bitcoin'', Finite 1, Finite (2345624805922133 / 2 ^ 46)),
            (''Ethereum'', Finite 1, Finite (2345624805922133 / 2 ^ 46)),
            (''Tether'', Finite 1, Finite (2345624805922133 / 2 ^ 46))]"
  by (simp only: get_content_tbody [of parser_ex markup_thirds, OF find_thirds] sum_caps_thirds
      build_info_thirds sum.case)

lemma sum_percentages_thirds:
  "sum_percentages round_double
     [(''Bitcoin'', Finite 1, Finite (2345624805922133 / 2 ^ 46)),
      (''Ethereum'', Finite 1, Finite (2345624805922133 / 2 ^ 46)),
      (''Tether'', Finite 1, Finite (2345624805922133 / 2 ^ 46))]
     = Finite (7036874417766399 / 2 ^ 46)"
  by code_simp

text \<open>
  Three capitalizations of \<open>$1\<close>: each percentage is the float next to \<open>100 / 3\<close>, and their
  float sum is \<open>99.99999999999999\<close>, within the bound.
\<close>

theorem percentages_sum_tolerance_witness:
  "get_content round_double parser_ex markup_thirds
     = Inr [(''Bitcoin'', Finite 1, Finite (2345624805922133 / 2 ^ 46)),
            (''Ethereum'', Finite 1, Finite (2345624805922133 / 2 ^ 46)),
            (''Tether'', Finite 1, Finite (2345624805922133 / 2 ^ 46))] \<and>
   sum_percentages round_double
     [(''Bitcoin'', Finite 1, Finite (2345624805922133 / 2 ^ 46)),
      (''Ethereum'', Finite 1, Finite (2345624805922133 / 2 ^ 46)),
      (''Tether'', Finite 1, Finite (2345624805922133 / 2 ^ 46))]
     = Finite (7036874417766399 / 2 ^ 46) \<and>
   7036874417766399 / 2 ^ 46 \<noteq> (100 :: rat) \<and>
   \<bar>7036874417766399 / 2 ^ 46 - (100 :: rat)\<bar> \<le> 400 * (3 + 1) / 2 ^ 53"
proof -
  let ?p = "Finite (2345624805922133 / 2 ^ 46)"
  let ?info = "[(''Bitcoin'', Finite 1, ?p), (''Ethereum'', Finite 1, ?p), (''Tether'', Finite 1, ?p)]"
  have range: "\<forall>r \<in> set ?info. \<exists>c. fst (snd r) = Finite c \<and> (c = 0 \<or> (1 / 2 ^ 400 \<le> c \<and> c \<le> 2 ^ 400))"
    by simp
  have count: "length ?info \<le> 2 ^ 40" by simp
  have nonempty: "?info \<noteq> []" by simp
  from percentages_sum_tolerance [where parser = parser_ex and html_text = markup_thirds
      and table = tbody_thirds and coins_info = ?info,
      OF find_thirds tags_thirds get_content_thirds nonempty range count]
  obtain s where s: "sum_percentages round_double ?info = Finite s"
    and b: "\<bar>s - 100\<bar> \<le> 400 * (of_nat (length ?info) + 1) / 2 ^ 53" by blast
  from s have "s = 7036874417766399 / 2 ^ 46" by (simp only: sum_percentages_thirds pyfloat.inject)
  with b have "\<bar>7036874417766399 / 2 ^ 46 - (100 :: rat)\<bar> \<le> 400 * (3 + 1) / 2 ^ 53" by simp
  moreover have "7036874417766399 / 2 ^ 46 \<noteq> (100 :: rat)" by simp
  ultimately show ?thesis using get_content_thirds sum_percentages_thirds by blast
qed

subsection \<open>Inputs on which the sum is not 100\<close>

lemma find_nan: "find ''tbody'' (parser_ex markup_nan) = Some tbody_nan"
  by code_simp

lemma sum_caps_nan: "sum_caps round_double (capitalization_tags tbody_nan) (Finite 0) = Inr NaN"
  by code_simp

lemma build_info_nan:
  "build_info round_double NaN (zip (coin_name_tags tbody_nan) (capitalization_tags tbody_nan)) []
     = Inr [(''Bitcoin'', NaN, NaN)]"
  by code_simp

lemma sum_caps_surplus: "sum_caps round_double (capitalization_tags tbody_surplus) (Finite 0) = Inr (Finite 400)"
  by code_simp

lemma build_info_surplus:
  "build_info round_double (Finite 400) (zip (coin_name_tags tbody_surplus) (capitalization_tags tbody_surplus)) []
     = Inr [(''Bitcoin'', Finite 100, Finite 25)]"
  by code_simp

lemma round_huge: "round_double (10 ^ 308) = Finite (5010420900022432 * 2 ^ 971)"
proof -
  have "round_double (10 ^ 308) = Finite (of_int 5010420900022432 * pow2 (1023 - 52))"
    by (rule round_double_eq) (simp_all add: pow2_def)
  then show ?thesis by (simp add: pow2_def)
qed

lemma round_huge_same:
  "round_double (5010420900022432 * 2 ^ 971) = Finite (5010420900022432 * 2 ^ 971)"
proof -
  have "round_double (5010420900022432 * 2 ^ 971) = Finite (of_int 5010420900022432 * pow2 (1023 - 52))"
    by (rule round_double_eq) (simp_all add: pow2_def)
  then show ?thesis by (simp add: pow2_def)
qed

lemma round_huge_twice:
  "round_double (5010420900022432 * 2 ^ 971 + 5010420900022432 * 2 ^ 971) = PInf"
  by (rule round_double_overflow) (simp add: pow2_def)

lemma parse_huge: "parse_decimal ''1e308'' = Some (10 ^ 308)"
  by code_simp

lemma float_of_str_huge: "float_of_str rnd ''1e308'' = Inr (rnd (10 ^ 308))"
proof -
  have a: "drop_underscores (CHR 0x00) (float_strip ''1e308'') = Some ''1e308''" by code_simp
  have b: "split_sign ''1e308'' = (False, ''1e308'')" by code_simp
  have c: "map lower ''1e308'' = ''1e308''" by code_simp
  show ?thesis unfolding float_of_str_def by (simp add: a b c parse_huge)
qed

lemma find_huge: "find ''tbody'' (parser_ex markup_huge) = Some tbody_huge"
  by code_simp

lemma names_huge: "coin_name_tags tbody_huge = [name_p ''Bitcoin'', name_p ''Ethereum'']"
  by code_simp

lemma caps_huge: "capitalization_tags tbody_huge = [cap_span ''1e308'', cap_span ''1e308'']"
  by code_simp

lemma cap_str_huge: "cap_str (cap_span ''1e308'') = ''1e308''"
  by code_simp

lemma name_huge:
  "strip (text_of (name_p ''Bitcoin'')) = ''Bitcoin''" "strip (text_of (name_p ''Ethereum'')) = ''Ethereum''"
  by code_simp+

lemma sum_caps_huge: "sum_caps round_double (capitalization_tags tbody_huge) (Finite 0) = Inr PInf"
  by (simp only: caps_huge sum_caps.simps cap_str_huge float_of_str_huge round_huge sum.case
      fadd.simps add_0 round_huge_same round_huge_twice)

lemma build_info_huge:
  "build_info round_double PInf (zip (coin_name_tags tbody_huge) (capitalization_tags tbody_huge)) []
     = Inr [(''Bitcoin'', Finite (5010420900022432 * 2 ^ 971), Finite 0),
            (''Ethereum'', Finite (5010420900022432 * 2 ^ 971), Finite 0)]"
  by (simp only: caps_huge names_huge zip.simps list.case build_info.simps cap_str_huge
      float_of_str_huge round_huge sum.case fdiv.simps fmul.simps mult_zero_left round_double_zero
      name_huge append.simps)

lemma sum_percentages_huge:
  "sum_percentages round_double
     [(''Bitcoin'', Finite (5010420900022432 * 2 ^ 971), Finite 0),
      (''Ethereum'', Finite (5010420900022432 * 2 ^ 971), Finite 0)] = Finite 0"
  by (simp add: sum_percentages_def round_double_zero)

lemma find_negative: "find ''tbody'' (parser_ex markup_negative) = Some tbody_negative"
  by code_simp

lemma sum_caps_negative:
  "sum_caps round_double (capitalization_tags tbody_negative) (Finite 0) = Inr (Finite (1 / 2 ^ 52))"
  by code_simp

lemma build_info_negative:
  "build_info round_double (Finite (1 / 2 ^ 52))
      (zip (coin_name_tags tbody_negative) (capitalization_tags tbody_negative)) []
     = Inr [(''Bitcoin'', Finite (- 1), Finite (- 450359962737049600)),
            (''Ethereum'', Finite (1 + 1 / 2 ^ 52), Finite 450359962737049728)]"
  by code_simp

text \<open>
  Claim C1 fails as stated, also under binary64 arithmetic and well beyond rounding.
  With one name element and the capitalization elements \<open>$100\<close> and \<open>$300\<close>, \<open>zip\<close> keeps one
  pair while the total is 400: the only record has 25 percent. With the capitalization text
  \<open>nan\<close>, which \<open>float\<close> accepts, the percentage is a NaN. With two capitalizations of
  \<open>1e308\<close> the total overflows to infinity, and both percentages are 0. With the
  capitalizations \<open>-1\<close> and \<open>1.0000000000000002\<close> the total is \<open>2\<^sup>-\<^sup>5\<^sup>2\<close>, the second percentage
  is rounded by 28, and the percentages add up to 128.
\<close>

theorem percentages_sum_counterexample:
  "get_content round_double parser_ex markup_surplus = Inr [(''Bitcoin'', Finite 100, Finite 25)] \<and>
   sum_percentages round_double [(''Bitcoin'', Finite 100, Finite 25)] = Finite 25 \<and>
   get_content round_double parser_ex markup_nan = Inr [(''Bitcoin'', NaN, NaN)] \<and>
   sum_percentages round_double [(''Bitcoin'', NaN, NaN)] = NaN \<and>
   get_content round_double parser_ex markup_huge
     = Inr [(''Bitcoin'', Finite (5010420900022432 * 2 ^ 971), Finite 0),
            (''Ethereum'', Finite (5010420900022432 * 2 ^ 971), Finite 0)] \<and>
   sum_percentages round_double
     [(''Bitcoin'', Finite (5010420900022432 * 2 ^ 971), Finite 0),
      (''Ethereum'', Finite (5010420900022432 * 2 ^ 971), Finite 0)] = Finite 0 \<and>
   get_content round_double parser_ex markup_negative
     = Inr [(''Bitcoin'', Finite (- 1), Finite (- 450359962737049600)),
            (''Ethereum'', Finite (1 + 1 / 2 ^ 52), Finite 450359962737049728)] \<and>
   sum_percentages round_double
     [(''Bitcoin'', Finite (- 1), Finite (- 450359962737049600)),
      (''Ethereum'', Finite (1 + 1 / 2 ^ 52), Finite 450359962737049728)] = Finite 128"
proof -
  have a: "get_content round_double parser_ex markup_surplus = Inr [(''Bitcoin'', Finite 100, Finite 25)]"
    by (simp only: get_content_tbody [of parser_ex markup_surplus, OF find_surplus] sum_caps_surplus
        build_info_surplus sum.case)
  have b: "sum_percentages round_double [(''Bitcoin'', Finite 100, Finite 25)] = Finite 25"
    by code_simp
  have c: "get_content round_double parser_ex markup_nan = Inr [(''Bitcoin'', NaN, NaN)]"
    by (simp only: get_content_tbody [of parser_ex markup_nan, OF find_nan] sum_caps_nan
        build_info_nan sum.case)
  have d: "sum_percentages round_double [(''Bitcoin'', NaN, NaN)] = NaN"
    by code_simp
  have e: "get_content round_double parser_ex markup_huge
     = Inr [(''Bitcoin'', Finite (5010420900022432 * 2 ^ 971), Finite 0),
            (''Ethereum'', Finite (5010420900022432 * 2 ^ 971), Finite 0)]"
    by (simp only: get_content_tbody [of parser_ex markup_huge, OF find_huge] sum_caps_huge
        build_info_huge sum.case)
  have f: "sum_percentages round_double
     [(''Bitcoin'', Finite (5010420900022432 * 2 ^ 971), Finite 0),
      (''Ethereum'', Finite (5010420900022432 * 2 ^ 971), Finite 0)] = Finite 0"
    by (rule sum_percentages_huge)
  have g: "get_content round_double parser_ex markup_negative
     = Inr [(''Bitcoin'', Finite (- 1), Finite (- 450359962737049600)),
            (''Ethereum'', Finite (1 + 1 / 2 ^ 52), Finite 450359962737049728)]"
    by (simp only: get_content_tbody [of parser_ex markup_negative, OF find_negative]
        sum_caps_negative build_info_negative sum.case)
  have h: "sum_percentages round_double
     [(''Bitcoin'', Finite (- 1), Finite (- 450359962737049600)),
      (''Ethereum'', Finite (1 + 1 / 2 ^ 52), Finite 450359962737049728)] = Finite 128"
    by code_simp
  from a b c d e f g h show ?thesis by (intro conjI)
qed

section \<open>The percentages of 100, 300 and 600\<close>

lemma div_100: "fdiv round_double (Finite 100) (Finite 1000) = Inr (Finite (3602879701896397 / 2 ^ 55))"
  by code_simp
lemma div_300: "fdiv round_double (Finite 300) (Finite 1000) = Inr (Finite (5404319552844595 / 2 ^ 54))"
  by code_simp
lemma div_600: "fdiv round_double (Finite 600) (Finite 1000) = Inr (Finite (5404319552844595 / 2 ^ 53))"
  by code_simp
lemma mul_100: "fmul round_double (Finite (3602879701896397 / 2 ^ 55)) (Finite 100) = Finite 10"
  by code_simp
lemma mul_300: "fmul round_double (Finite (5404319552844595 / 2 ^ 54)) (Finite 100) = Finite 30"
  by code_simp
lemma mul_600: "fmul round_double (Finite (5404319552844595 / 2 ^ 53)) (Finite 100) = Finite 60"
  by code_simp

lemma pct_100:
  assumes "fdiv round_double (Finite 100) (Finite 1000) = Inr q"
  shows "fmul round_double q (Finite 100) = Finite 10"
proof -
  from assms div_100 have "q = Finite (3602879701896397 / 2 ^ 55)" by (metis Inr_inject)
  then show ?thesis by (simp only: mul_100)
qed

lemma pct_300:
  assumes "fdiv round_double (Finite 300) (Finite 1000) = Inr q"
  shows "fmul round_double q (Finite 100) = Finite 30"
proof -
  from assms div_300 have "q = Finite (5404319552844595 / 2 ^ 54)" by (metis Inr_inject)
  then show ?thesis by (simp only: mul_300)
qed

lemma pct_600:
  assumes "fdiv round_double (Finite 600) (Finite 1000) = Inr q"
  shows "fmul round_double q (Finite 100) = Finite 60"
proof -
  from assms div_600 have "q = Finite (5404319552844595 / 2 ^ 53)" by (metis Inr_inject)
  then show ?thesis by (simp only: mul_600)
qed

text \<open>
  Claim C4. With three name elements and capitalization elements whose strings \<open>float\<close>
  reads as 100, 300 and 600, \<open>get_content\<close>, computing in binary64, returns records whose
  percentages are 10.0, 30.0 and 60.0, in this order. The quotients 0.1, 0.3 and 0.6 are
  rounded, and the products with 100 round to the exact values.
\<close>

theorem percentages_100_300_600:
  assumes tbody: "find ''tbody'' (parser html_text) = Some table"
    and names: "length (coin_name_tags table) = 3"
    and parsed: "map (\<lambda>t. float_of_str round_double (cap_str t)) (capitalization_tags table)
                   = map Inr [Finite 100, Finite 300, Finite 600]"
  shows "\<exists>coins_info. get_content round_double parser html_text = Inr coins_info \<and>
           map (snd \<circ> snd) coins_info = [Finite 10, Finite 30, Finite 60]"
proof -
  let ?vs = "[Finite 100, Finite 300, Finite 600]"
  let ?ns = "coin_name_tags table" and ?cs = "capitalization_tags table"
  have tot: "foldl (fadd round_double) (Finite 0) ?vs = Finite 1000" by (rule total_top3)
  from parsed have caps: "length ?cs = 3" by (metis length_map length_Cons list.size(3) numeral_3_eq_3)
  have nz: "zip ?ns ?cs = [] \<or> foldl (fadd round_double) (Finite 0) ?vs \<noteq> Finite 0"
    by (simp only: tot) simp
  from get_content_result [of parser html_text table round_double ?vs, OF tbody parsed nz] tot
  obtain coins_info where gc: "get_content round_double parser html_text = Inr coins_info"
    and all: "list_all2 (coin_record round_double (Finite 1000)) (zip ?ns ?cs) coins_info"
    by auto
  from all names caps have len: "length coins_info = 3" by (auto dest: list_all2_lengthD)
  have rec: "\<exists>q. fdiv round_double (?vs ! i) (Finite 1000) = Inr q \<and>
      snd (snd (coins_info ! i)) = fmul round_double q (Finite 100)" if "i < 3" for i
  proof -
    from that names caps have i: "i < length ?ns" "i < length ?cs" by simp_all
    then have "i < length (zip ?ns ?cs)" by simp
    with all have "coin_record round_double (Finite 1000) (zip ?ns ?cs ! i) (coins_info ! i)"
      by (rule list_all2_nthD)
    from coin_record_nth [OF parsed i this] show ?thesis by auto
  qed
  from rec [of 0] obtain q0 where "fdiv round_double (Finite 100) (Finite 1000) = Inr q0"
    and "snd (snd (coins_info ! 0)) = fmul round_double q0 (Finite 100)"
    by (auto simp del: fdiv.simps fmul.simps)
  then have p0: "snd (snd (coins_info ! 0)) = Finite 10"
    by (simp only: pct_100)
  from rec [of 1] obtain q1 where "fdiv round_double (Finite 300) (Finite 1000) = Inr q1"
    and "snd (snd (coins_info ! 1)) = fmul round_double q1 (Finite 100)"
    by (auto simp del: fdiv.simps fmul.simps)
  then have p1: "snd (snd (coins_info ! 1)) = Finite 30"
    by (simp only: pct_300)
  from rec [of 2] obtain q2 where "fdiv round_double (Finite 600) (Finite 1000) = Inr q2"
    and "snd (snd (coins_info ! 2)) = fmul round_double q2 (Finite 100)"
    by (auto simp del: fdiv.simps fmul.simps)
  then have p2: "snd (snd (coins_info ! 2)) = Finite 60"
    by (simp only: pct_600)
  from len obtain a b c where abc: "coins_info = [a, b, c]"
    by (auto simp: numeral_3_eq_3 length_Suc_conv)
  from p0 p1 p2 abc have "map (snd \<circ> snd) coins_info = [Finite 10, Finite 30, Finite 60]" by simp
  with gc have "get_content round_double parser html_text = Inr coins_info \<and>
      map (snd \<circ> snd) coins_info = [Finite 10, Finite 30, Finite 60]" by (intro conjI)
  then show ?thesis ..
qed

theorem percentages_100_300_600_witness:
  "find ''tbody'' (parser_ex markup_top3) = Some tbody_top3 \<and>
   length (coin_name_tags tbody_top3) = 3 \<and>
   map (\<lambda>t. float_of_str round_double (cap_str t)) (capitalization_tags tbody_top3)
     = map Inr [Finite 100, Finite 300, Finite 600] \<and>
   (\<exists>coins_info. get_content round_double parser_ex markup_top3 = Inr coins_info \<and>
      map (snd \<circ> snd) coins_info = [Finite 10, Finite 30, Finite 60])"
proof -
  have n: "length (coin_name_tags tbody_top3) = 3" by (simp add: names_top3)
  have p: "map (\<lambda>t. float_of_str round_double (cap_str t)) (capitalization_tags tbody_top3)
     = map Inr [Finite 100, Finite 300, Finite 600]"
    by (simp only: caps_top3 float_caps)
  from percentages_100_300_600 [where parser = parser_ex and html_text = markup_top3
      and table = tbody_top3, OF find_top3 n p] find_top3 n p
  show ?thesis by (intro conjI)
qed

section \<open>The output file\<close>

lemma write_cmc_top_ok:
  assumes "get_html w = Inr html_text"
    and "get_content rnd parser html_text = Inr coins_info"
    and "filename (clock w) \<notin> unwritable w"
  shows "write_cmc_top rnd parser float_str w =
    (None, w\<lparr>files := (files w)(filename (clock w) \<mapsto>
       write_rows float_str coins_info [writerow [''Name'', ''MC'', ''MP'']])\<rparr>)"
  using assms by (simp add: write_cmc_top_def)

lemma sum_caps_top3:
  "sum_caps round_double [cap_span ''$100'', cap_span ''$300'', cap_span ''$600''] (Finite 0)
     = Inr (Finite 1000)"
  by (simp only: sum_caps_parsed [OF float_caps] total_top3)

lemma build_info_top3:
  "build_info round_double (Finite 1000)
     (zip [name_p ''Bitcoin'', name_p ''Ethereum'', name_p ''Tether'']
          [cap_span ''$100'', cap_span ''$300'', cap_span ''$600'']) []
     = Inr [(''Bitcoin'', Finite 100, Finite 10), (''Ethereum'', Finite 300, Finite 30),
            (''Tether'', Finite 600, Finite 60)]"
  by code_simp

lemma get_content_top3:
  "get_content round_double parser_ex markup_top3
     = Inr [(''Bitcoin'', Finite 100, Finite 10), (''Ethereum'', Finite 300, Finite 30),
            (''Tether'', Finite 600, Finite 60)]"
  by (simp only: get_content_tbody [of parser_ex markup_top3, OF find_top3] sum_caps_top3
      names_top3 caps_top3 build_info_top3 sum.case)

lemma get_html_ex: "get_html (world_ex m) = Inr m"
  by (simp add: get_html_def world_ex_def)

lemma writable_ex: "filename (clock (world_ex m)) \<notin> unwritable (world_ex m)"
  by (simp add: world_ex_def)






lemma digit_table:
  "\<forall>k \<in> set [0..<10]. isdigit (''0123456789'' ! k) \<and> digit_val (''0123456789'' ! k) = int k"
  by code_simp

lemma digit_char_digit: "isdigit (digit_char n)" and digit_char_val: "digit_val (digit_char n) = int (n mod 10)"
  using digit_table by (simp_all add: digit_char_def)

lemma two_digits_val: "n < 100 \<Longrightarrow> digits_val (two_digits n) = int n"
proof -
  assume "n < 100"
  then have a: "n div 10 mod 10 = n div 10" by simp
  have "int (10 * (n div 10) + n mod 10) = int n" by simp
  then have "10 * int (n div 10) + int (n mod 10) = int n" by (simp only: of_nat_add of_nat_mult of_nat_numeral)
  then show ?thesis by (simp add: two_digits_def digits_val_def digit_char_val a)
qed

lemma four_digits_val: "n < 10000 \<Longrightarrow> digits_val (four_digits n) = int n"
proof -
  assume n: "n < 10000"
  define a where "a = n div 10"
  define b where "b = a div 10"
  define c where "c = b div 10"
  have b: "n div 100 = b" unfolding b_def a_def by (simp add: div_mult2_eq [symmetric])
  have c: "n div 1000 = c" unfolding c_def b_def a_def by (simp add: div_mult2_eq [symmetric])
  from n c have c10: "c mod 10 = c" by simp
  have "n = 10 * a + n mod 10" "a = 10 * b + a mod 10" "b = 10 * c + b mod 10"
    unfolding a_def b_def c_def by simp_all
  then have "10 * (10 * (10 * c + b mod 10) + a mod 10) + n mod 10 = n" by simp
  then have "int (10 * (10 * (10 * c + b mod 10) + a mod 10) + n mod 10) = int n" by simp
  then have "10 * (10 * (10 * int c + int (b mod 10)) + int (a mod 10)) + int (n mod 10) = int n"
    by (simp only: of_nat_add of_nat_mult of_nat_numeral)
  then show ?thesis
    by (simp add: four_digits_def digits_val_def digit_char_val b c c10 a_def [symmetric])
qed

lemma strftime_format:
  "strftime ''%H.%M %d.%m.%Y'' now =
     two_digits (hour now) @ ''.'' @ two_digits (minute now) @ '' '' @ two_digits (day now) @ ''.'' @
     two_digits (month now) @ ''.'' @ four_digits (year now)"
  by (simp add: directive_def)

lemma filename_shape:
  assumes "hour now < 24" "minute now < 60" "day now \<le> 31" "month now \<le> 12" "year now \<le> 9999"
  shows "filename_pattern (filename now) now"
proof -
  obtain h1 h2 where h: "two_digits (hour now) = [h1, h2]" by (simp add: two_digits_def)
  obtain m1 m2 where m: "two_digits (minute now) = [m1, m2]" by (simp add: two_digits_def)
  obtain d1 d2 where d: "two_digits (day now) = [d1, d2]" by (simp add: two_digits_def)
  obtain o1 o2 where o: "two_digits (month now) = [o1, o2]" by (simp add: two_digits_def)
  obtain y1 y2 y3 y4 where y: "four_digits (year now) = [y1, y2, y3, y4]"
    by (simp add: four_digits_def)
  have dig: "list_all isdigit (two_digits k)" "list_all isdigit (four_digits k)" for k
    by (simp_all add: two_digits_def four_digits_def digit_char_digit)
  have v: "digits_val [h1, h2] = int (hour now)" "digits_val [m1, m2] = int (minute now)"
    "digits_val [d1, d2] = int (day now)" "digits_val [o1, o2] = int (month now)"
    "digits_val [y1, y2, y3, y4] = int (year now)"
    using assms two_digits_val [of "hour now"] two_digits_val [of "minute now"]
      two_digits_val [of "day now"] two_digits_val [of "month now"] four_digits_val [of "year now"]
    by (simp_all add: h m d o y)
  have g: "list_all isdigit [h1, h2]" "list_all isdigit [m1, m2]" "list_all isdigit [d1, d2]"
    "list_all isdigit [o1, o2]" "list_all isdigit [y1, y2, y3, y4]"
    using dig(1) [of "hour now"] dig(1) [of "minute now"] dig(1) [of "day now"]
      dig(1) [of "month now"] dig(2) [of "year now"]
    by (simp_all only: h m d o y)
  have f: "filename now = ''Top100 '' @ [h1, h2] @ ''.'' @ [m1, m2] @ '' '' @ [d1, d2] @ ''.'' @
      [o1, o2] @ ''.'' @ [y1, y2, y3, y4] @ ''.csv''"
    by (simp only: filename_def strftime_format h m d o y append_assoc)
  show ?thesis
    unfolding filename_pattern_def f using v g by simp
qed

text \<open>
  Claim C6. In a run that reaches the file, with the clock at a valid local time of a
  four-digit year, exactly one file is written, the one named \<open>filename (clock w)\<close>, and
  this name matches \<open>Top100 <HH.MM DD.MM.YYYY>.csv\<close> for that time: the fixed characters are
  in place and the digit groups read back as the hour, minute, day, month and year.
\<close>

theorem written_filename_pattern:
  assumes html: "get_html w = Inr html_text"
    and content: "get_content rnd parser html_text = Inr coins_info"
    and writable: "filename (clock w) \<notin> unwritable w"
    and valid: "hour (clock w) < 24" "minute (clock w) < 60" "1 \<le> day (clock w)" "day (clock w) \<le> 31"
      "1 \<le> month (clock w)" "month (clock w) \<le> 12" "1000 \<le> year (clock w)" "year (clock w) \<le> 9999"
  shows "\<exists>w'. write_cmc_top rnd parser float_str w = (None, w') \<and>
           files w' (filename (clock w)) \<noteq> None \<and>
           (\<forall>fn. fn \<noteq> filename (clock w) \<longrightarrow> files w' fn = files w fn) \<and>
           filename_pattern (filename (clock w)) (clock w)"
proof -
  let ?w' = "w\<lparr>files := (files w)(filename (clock w) \<mapsto>
       write_rows float_str coins_info [writerow [''Name'', ''MC'', ''MP'']])\<rparr>"
  have run: "write_cmc_top rnd parser float_str w = (None, ?w')"
    using html content writable by (rule write_cmc_top_ok)
  have a: "files ?w' (filename (clock w)) \<noteq> None" by simp
  have b: "\<forall>fn. fn \<noteq> filename (clock w) \<longrightarrow> files ?w' fn = files w fn" by simp
  have c: "filename_pattern (filename (clock w)) (clock w)"
    using valid(1,2,4,6,8) by (rule filename_shape)
  from run a b c show ?thesis by blast
qed

lemma filename_ex: "filename clock_ex = ''Top100 07.05 03.11.2026.csv''"
  by code_simp

theorem written_filename_pattern_witness:
  "get_html (world_ex markup_top3) = Inr markup_top3 \<and>
   get_content round_double parser_ex markup_top3
     = Inr [(''Bitcoin'', Finite 100, Finite 10), (''Ethereum'', Finite 300, Finite 30),
            (''Tether'', Finite 600, Finite 60)] \<and>
   filename (clock (world_ex markup_top3)) \<notin> unwritable (world_ex markup_top3) \<and>
   clock (world_ex markup_top3) = \<lparr>year = 2026, month = 11, day = 3, hour = 7, minute = 5\<rparr> \<and>
   filename (clock (world_ex markup_top3)) = ''Top100 07.05 03.11.2026.csv'' \<and>
   (\<exists>w'. write_cmc_top round_double parser_ex str_ex (world_ex markup_top3) = (None, w') \<and>
      files w' ''Top100 07.05 03.11.2026.csv'' \<noteq> None \<and>
      (\<forall>fn. fn \<noteq> ''Top100 07.05 03.11.2026.csv'' \<longrightarrow> files w' fn = files (world_ex markup_top3) fn) \<and>
      filename_pattern ''Top100 07.05 03.11.2026.csv'' (clock (world_ex markup_top3)))"
proof -
  have c: "clock (world_ex markup_top3) = \<lparr>year = 2026, month = 11, day = 3, hour = 7, minute = 5\<rparr>"
    by (simp add: world_ex_def clock_ex_def)
  have f: "filename (clock (world_ex markup_top3)) = ''Top100 07.05 03.11.2026.csv''"
    by (simp only: world_ex_def world.simps filename_ex)
  have v: "hour (clock (world_ex markup_top3)) < 24" "minute (clock (world_ex markup_top3)) < 60"
    "1 \<le> day (clock (world_ex markup_top3))" "day (clock (world_ex markup_top3)) \<le> 31"
    "1 \<le> month (clock (world_ex markup_top3))" "month (clock (world_ex markup_top3)) \<le> 12"
    "1000 \<le> year (clock (world_ex markup_top3))" "year (clock (world_ex markup_top3)) \<le> 9999"
    by (simp_all add: c)
  from written_filename_pattern [where w = "world_ex markup_top3" and html_text = markup_top3
      and rnd = round_double and parser = parser_ex and float_str = str_ex,
      OF get_html_ex get_content_top3 writable_ex v]
  have "\<exists>w'. write_cmc_top round_double parser_ex str_ex (world_ex markup_top3) = (None, w') \<and>
      files w' ''Top100 07.05 03.11.2026.csv'' \<noteq> None \<and>
      (\<forall>fn. fn \<noteq> ''Top100 07.05 03.11.2026.csv'' \<longrightarrow> files w' fn = files (world_ex markup_top3) fn) \<and>
      filename_pattern ''Top100 07.05 03.11.2026.csv'' (clock (world_ex markup_top3))"
    by (simp only: f)
  with get_html_ex [of markup_top3] get_content_top3 writable_ex [of markup_top3] c f
  show ?thesis by (intro conjI)
qed

section \<open>Cleaning and parsing a capitalization string\<close>


















end
